theory Spec2Isabelle
  imports Main "HOL-Library.AList" "HOL-Library.Sublist" "HOL-Library.Multiset"
begin

section \<open>Paths and the protected-directory guard\<close>

text \<open>
  Python strings are modelled as lists of the code points below 256: \<^verbatim>\<open>str.lower\<close> and
  \<^verbatim>\<open>str.strip\<close> are the Unicode operations restricted to that range. The helpers of this
  section model the string methods and the \<^verbatim>\<open>os.path\<close> functions (POSIX flavour) that
  \<^verbatim>\<open>is_protected_directory\<close> calls.
\<close>

type_synonym path = string

definition lower_char :: "char \<Rightarrow> char" where
  "lower_char c =
     (let n = (of_char c :: nat) in
      if (65 \<le> n \<and> n \<le> 90) \<or> (192 \<le> n \<and> n \<le> 222 \<and> n \<noteq> 215) then char_of (n + 32) else c)"

definition lower :: "string \<Rightarrow> string" where
  "lower s = map lower_char s"

definition replace_backslash :: "string \<Rightarrow> string" where
  "replace_backslash s = map (\<lambda>c. if c = CHR 0x5C then CHR ''/'' else c) s"

text \<open>\<^verbatim>\<open>s.split(c)\<close>: the pieces between the separators, empty pieces included.\<close>

fun split_sep :: "char \<Rightarrow> string \<Rightarrow> string list" where
  "split_sep c [] = [[]]"
| "split_sep c (x # xs) =
     (if x = c then [] # split_sep c xs
      else (case split_sep c xs of w # ws \<Rightarrow> (x # w) # ws | [] \<Rightarrow> [[x]]))"

text \<open>\<^verbatim>\<open>sep.join(comps)\<close>.\<close>

fun join_sep :: "string \<Rightarrow> string list \<Rightarrow> string" where
  "join_sep sep [] = []"
| "join_sep sep [w] = w"
| "join_sep sep (w # ws) = w @ sep @ join_sep sep ws"

text \<open>\<^verbatim>\<open>posixpath.join(a, b)\<close> for two arguments.\<close>

definition os_path_join :: "path \<Rightarrow> path \<Rightarrow> path" where
  "os_path_join a b =
     (if prefix ''/'' b then b
      else if a = [] \<or> suffix ''/'' a then a @ b
      else a @ ''/'' @ b)"

text \<open>The component loop of \<^verbatim>\<open>posixpath.normpath\<close>.\<close>

fun norm_comps :: "bool \<Rightarrow> string list \<Rightarrow> string list \<Rightarrow> string list" where
  "norm_comps initial_slashes [] new_comps = new_comps"
| "norm_comps initial_slashes (cmp # comps) new_comps =
     (if cmp = [] \<or> cmp = ''.'' then norm_comps initial_slashes comps new_comps
      else if cmp \<noteq> ''..'' \<or> (\<not> initial_slashes \<and> new_comps = [])
              \<or> (new_comps \<noteq> [] \<and> last new_comps = ''..'')
           then norm_comps initial_slashes comps (new_comps @ [cmp])
      else if new_comps \<noteq> [] then norm_comps initial_slashes comps (butlast new_comps)
      else norm_comps initial_slashes comps new_comps)"

definition normpath :: "path \<Rightarrow> path" where
  "normpath p =
     (if p = [] then ''.''
      else
        let initial_slashes =
              (if prefix ''/'' p then
                 (if prefix ''//'' p \<and> \<not> prefix ''///'' p then 2 else 1)
               else (0::nat));
            comps = norm_comps (initial_slashes \<noteq> 0) (split_sep CHR ''/'' p) [];
            q = replicate initial_slashes CHR ''/'' @ join_sep ''/'' comps
        in if q = [] then ''.'' else q)"

text \<open>\<^verbatim>\<open>posixpath.abspath(path)\<close>, with the working directory of the process as a parameter.\<close>

definition posix_abspath :: "path \<Rightarrow> path \<Rightarrow> path" where
  "posix_abspath cwd p = normpath (if prefix ''/'' p then p else os_path_join cwd p)"

text \<open>\<^verbatim>\<open>doubleterminator.is_protected_directory\<close>. The platform's \<^verbatim>\<open>os.path.abspath\<close> is a
  parameter; \<^verbatim>\<open>p in path_lower\<close> on strings is the contiguous-substring test.\<close>

definition protected_paths :: "string list" where
  "protected_paths =
     [''/windows/'', ''/system32/'', ''/program files/'',
      ''/programdata/'', ''/boot/'', ''/etc/'', ''/usr/'', ''/var/'', ''/lib/'']"

definition path_lower_of :: "(path \<Rightarrow> path) \<Rightarrow> path \<Rightarrow> path" where
  "path_lower_of abspath p = replace_backslash (lower (abspath p))"

definition is_protected_directory :: "(path \<Rightarrow> path) \<Rightarrow> path \<Rightarrow> bool" where
  "is_protected_directory abspath p =
     (let path_lower = path_lower_of abspath p in
      if length path_lower \<le> 3 \<and> CHR '':'' \<in> set path_lower then True
      else list_ex (\<lambda>q. sublist q path_lower) protected_paths)"

section \<open>The filesystem\<close>

text \<open>
  The state the program works on. A regular file has its bytes, its modification time (the number
  \<^verbatim>\<open>os.path.getmtime\<close> returns; only its order and its formatted date matter, and it is an
  integer here) and the permissions that decide which system
  calls on it succeed. \<open>read_limit = Some k\<close> makes every read that starts at offset \<open>k\<close> or
  later fail, which models a failure in the middle of the stream. Directory enumeration
  (\<^verbatim>\<open>os.listdir\<close>, \<^verbatim>\<open>os.walk\<close>) is part of the state as well; a name that is listed need not
  be a file of the state any more (it vanished, or is a dangling link).
\<close>

record regfile =
  content :: string
  mtime :: int
  stat_ok :: bool
  open_ok :: bool
  read_limit :: "nat option"
  remove_ok :: bool

record filesystem =
  files :: "path \<rightharpoonup> regfile"
  listdir :: "path \<Rightarrow> string list option"
  walk :: "path \<Rightarrow> (path \<times> string list \<times> string list) list"

datatype error = OSError | IndexError | EOFError | ValueError | OverflowError

text \<open>The system calls, as state transformers. Only \<open>os_remove\<close> changes the state; a call
  that raises returns \<open>Inl\<close>.\<close>

definition os_path_getsize :: "path \<Rightarrow> filesystem \<Rightarrow> (error + nat) \<times> filesystem" where
  "os_path_getsize p fs =
     (case files fs p of
        None \<Rightarrow> (Inl OSError, fs)
      | Some f \<Rightarrow> (if stat_ok f then Inr (length (content f)) else Inl OSError, fs))"

definition os_path_getmtime :: "path \<Rightarrow> filesystem \<Rightarrow> (error + int) \<times> filesystem" where
  "os_path_getmtime p fs =
     (case files fs p of
        None \<Rightarrow> (Inl OSError, fs)
      | Some f \<Rightarrow> (if stat_ok f then Inr (mtime f) else Inl OSError, fs))"

definition os_path_isfile :: "path \<Rightarrow> filesystem \<Rightarrow> bool \<times> filesystem" where
  "os_path_isfile p fs =
     (case files fs p of None \<Rightarrow> (False, fs) | Some f \<Rightarrow> (stat_ok f, fs))"

definition os_listdir :: "path \<Rightarrow> filesystem \<Rightarrow> (error + string list) \<times> filesystem" where
  "os_listdir d fs =
     (case listdir fs d of None \<Rightarrow> (Inl OSError, fs) | Some names \<Rightarrow> (Inr names, fs))"

definition os_walk ::
  "path \<Rightarrow> filesystem \<Rightarrow> (path \<times> string list \<times> string list) list \<times> filesystem" where
  "os_walk d fs = (walk fs d, fs)"

text \<open>What a successful \<^verbatim>\<open>os.remove\<close> does to the state: the file is gone, and its name is no
  longer listed.\<close>

definition unlink :: "path \<Rightarrow> filesystem \<Rightarrow> filesystem" where
  "unlink p fs =
     fs\<lparr>files := (files fs)(p := None),
        listdir := (\<lambda>d. map_option (filter (\<lambda>name. os_path_join d name \<noteq> p)) (listdir fs d)),
        walk := (\<lambda>d. map (\<lambda>(root, dirs, fnames).
                             (root, dirs, filter (\<lambda>name. os_path_join root name \<noteq> p) fnames))
                          (walk fs d))\<rparr>"

definition os_remove :: "path \<Rightarrow> filesystem \<Rightarrow> (error + unit) \<times> filesystem" where
  "os_remove p fs =
     (case files fs p of
        None \<Rightarrow> (Inl OSError, fs)
      | Some f \<Rightarrow> if remove_ok f then (Inr (), unlink p fs) else (Inl OSError, fs))"

section \<open>Hashing\<close>

text \<open>
  The read loop of \<^verbatim>\<open>calculate_file_hash\<close>: \<open>offset\<close> is the position of the open file and
  \<open>fed\<close> the bytes given to \<^verbatim>\<open>md5.update\<close> so far (updating with \<open>a\<close> and then \<open>b\<close> is updating
  with \<open>a @ b\<close>).
\<close>

function read_chunks :: "regfile \<Rightarrow> nat \<Rightarrow> nat \<Rightarrow> string \<Rightarrow> error + string" where
  "read_chunks f buffer_size offset fed =
     (if (case read_limit f of None \<Rightarrow> False | Some k \<Rightarrow> k \<le> offset) then Inl OSError
      else
        let data = take buffer_size (drop offset (content f)) in
        if data = [] then Inr fed
        else read_chunks f buffer_size (offset + length data) (fed @ data))"
  by pat_completeness auto
termination
  by (relation "measure (\<lambda>(f, buffer_size, offset, fed). length (content f) - offset)") auto

declare read_chunks.simps [simp del]

text \<open>\<^verbatim>\<open>calculate_file_hash\<close>; the digest function \<^verbatim>\<open>hashlib.md5(...).hexdigest()\<close> is the
  parameter \<open>md5\<close>. \<open>None\<close> is the \<^verbatim>\<open>None\<close> of the \<^verbatim>\<open>except\<close> branch.\<close>

definition calculate_file_hash ::
  "(string \<Rightarrow> string) \<Rightarrow> path \<Rightarrow> nat \<Rightarrow> filesystem \<Rightarrow> string option \<times> filesystem" where
  "calculate_file_hash md5 filepath buffer_size fs =
     (case files fs filepath of
        None \<Rightarrow> (None, fs)
      | Some f \<Rightarrow>
          if \<not> open_ok f then (None, fs)
          else (case read_chunks f buffer_size 0 [] of
                  Inl e \<Rightarrow> (None, fs)
                | Inr fed \<Rightarrow> (Some (md5 fed), fs)))"

section \<open>Scanning and grouping\<close>

text \<open>
  Python's dictionaries keep insertion order, and the loops of \<^verbatim>\<open>find_duplicates\<close> iterate
  over them, so they are association lists: \<open>d[k].append(v)\<close> on a \<^verbatim>\<open>defaultdict(list)\<close> is
  \<^const>\<open>AList.map_default\<close> and \<open>d[k] = v\<close> is \<^const>\<open>AList.update\<close>.
\<close>

type_synonym buckets = "(nat \<times> path list) list"
type_synonym groups = "(string \<times> path list) list"

definition dict_append :: "'k \<Rightarrow> 'v \<Rightarrow> ('k \<times> 'v list) list \<Rightarrow> ('k \<times> 'v list) list" where
  "dict_append k v d = AList.map_default k [v] (\<lambda>l. l @ [v]) d"

text \<open>The first pass, which counts the files.\<close>

fun count_isfile :: "path \<Rightarrow> string list \<Rightarrow> filesystem \<Rightarrow> nat \<times> filesystem" where
  "count_isfile directory [] fs = (0, fs)"
| "count_isfile directory (name # names) fs =
     (case os_path_isfile (os_path_join directory name) fs of
        (b, fs1) \<Rightarrow>
          (case count_isfile directory names fs1 of
             (n, fs2) \<Rightarrow> ((if b then Suc n else n), fs2)))"

definition count_total_files ::
  "path \<Rightarrow> bool \<Rightarrow> filesystem \<Rightarrow> (error + nat) \<times> filesystem" where
  "count_total_files directory include_subfolders fs =
     (if include_subfolders then
        (case os_walk directory fs of
           (triples, fs1) \<Rightarrow>
             (Inr (sum_list (map (\<lambda>(root, dirs, fnames). length fnames) triples)), fs1))
      else
        (case os_listdir directory fs of
           (Inl e, fs1) \<Rightarrow> (Inl e, fs1)
         | (Inr names, fs1) \<Rightarrow>
             (case count_isfile directory names fs1 of (n, fs2) \<Rightarrow> (Inr n, fs2))))"

text \<open>The body of the \<^verbatim>\<open>try\<close> of the size scan, with its \<^verbatim>\<open>except\<close> branch. The loop state is
  \<open>(files_by_size, processed_files)\<close>.\<close>

definition scan_file ::
  "path \<Rightarrow> buckets \<times> nat \<Rightarrow> filesystem \<Rightarrow> (buckets \<times> nat) \<times> filesystem" where
  "scan_file filepath st fs =
     (case st of (files_by_size, processed_files) \<Rightarrow>
        (case os_path_getsize filepath fs of
           (Inr file_size, fs1) \<Rightarrow>
             ((dict_append file_size filepath files_by_size, processed_files + 1), fs1)
         | (Inl e, fs1) \<Rightarrow> ((files_by_size, processed_files + 1), fs1)))"

fun scan_names ::
  "path \<Rightarrow> string list \<Rightarrow> buckets \<times> nat \<Rightarrow> filesystem \<Rightarrow> (buckets \<times> nat) \<times> filesystem" where
  "scan_names root [] st fs = (st, fs)"
| "scan_names root (filename # fnames) st fs =
     (case scan_file (os_path_join root filename) st fs of
        (st1, fs1) \<Rightarrow> scan_names root fnames st1 fs1)"

fun scan_walk ::
  "(path \<times> string list \<times> string list) list \<Rightarrow> buckets \<times> nat \<Rightarrow> filesystem \<Rightarrow>
     (buckets \<times> nat) \<times> filesystem" where
  "scan_walk [] st fs = (st, fs)"
| "scan_walk ((root, dirs, fnames) # triples) st fs =
     (case scan_names root fnames st fs of (st1, fs1) \<Rightarrow> scan_walk triples st1 fs1)"

fun scan_listdir ::
  "path \<Rightarrow> string list \<Rightarrow> buckets \<times> nat \<Rightarrow> filesystem \<Rightarrow> (buckets \<times> nat) \<times> filesystem" where
  "scan_listdir directory [] st fs = (st, fs)"
| "scan_listdir directory (filename # names) st fs =
     (case os_path_isfile (os_path_join directory filename) fs of
        (True, fs1) \<Rightarrow>
          (case scan_file (os_path_join directory filename) st fs1 of
             (st1, fs2) \<Rightarrow> scan_listdir directory names st1 fs2)
      | (False, fs1) \<Rightarrow> scan_listdir directory names st fs1)"

definition scan_sizes ::
  "path \<Rightarrow> bool \<Rightarrow> filesystem \<Rightarrow> (error + buckets \<times> nat) \<times> filesystem" where
  "scan_sizes directory include_subfolders fs =
     (if include_subfolders then
        (case os_walk directory fs of
           (triples, fs1) \<Rightarrow>
             (case scan_walk triples ([], 0) fs1 of (st, fs2) \<Rightarrow> (Inr st, fs2)))
      else
        (case os_listdir directory fs of
           (Inl e, fs1) \<Rightarrow> (Inl e, fs1)
         | (Inr names, fs1) \<Rightarrow>
             (case scan_listdir directory names ([], 0) fs1 of (st, fs2) \<Rightarrow> (Inr st, fs2))))"

definition files_to_hash :: "buckets \<Rightarrow> nat" where
  "files_to_hash files_by_size =
     sum_list (map (\<lambda>(file_size, fl). length fl)
                   (filter (\<lambda>(file_size, fl). length fl > 1) files_by_size))"

text \<open>The hashing loop over one bucket; the loop state is \<open>(hashes, hashed_files)\<close>. The test
  \<^verbatim>\<open>if file_hash:\<close> is false for \<^verbatim>\<open>None\<close> and for the empty string.\<close>

fun hash_files ::
  "(string \<Rightarrow> string) \<Rightarrow> path list \<Rightarrow> groups \<times> nat \<Rightarrow> filesystem \<Rightarrow>
     (groups \<times> nat) \<times> filesystem" where
  "hash_files md5 [] st fs = (st, fs)"
| "hash_files md5 (filepath # fl) (hashes, hashed_files) fs =
     (case calculate_file_hash md5 filepath 65536 fs of
        (file_hash, fs1) \<Rightarrow>
          hash_files md5 fl
            ((case file_hash of
                None \<Rightarrow> hashes
              | Some h \<Rightarrow> if h \<noteq> [] then dict_append h filepath hashes else hashes),
             hashed_files + 1) fs1)"

fun store_groups :: "groups \<Rightarrow> groups \<Rightarrow> groups" where
  "store_groups [] duplicates = duplicates"
| "store_groups ((file_hash, file_list) # hashes) duplicates =
     store_groups hashes
       (if length file_list > 1 then AList.update file_hash file_list duplicates
        else duplicates)"

fun hash_buckets ::
  "(string \<Rightarrow> string) \<Rightarrow> buckets \<Rightarrow> groups \<times> nat \<Rightarrow> filesystem \<Rightarrow>
     (groups \<times> nat) \<times> filesystem" where
  "hash_buckets md5 [] st fs = (st, fs)"
| "hash_buckets md5 ((file_size, fl) # files_by_size) (duplicates, hashed_files) fs =
     (if length fl > 1 then
        (case hash_files md5 fl ([], hashed_files) fs of
           ((hashes, hashed_files1), fs1) \<Rightarrow>
             hash_buckets md5 files_by_size
               (store_groups hashes duplicates, hashed_files1) fs1)
      else hash_buckets md5 files_by_size (duplicates, hashed_files) fs)"

text \<open>\<^verbatim>\<open>find_duplicates\<close>. The progress bar only writes to the terminal, which is not part of
  the model, so \<^verbatim>\<open>show_progress\<close> has no counterpart.\<close>

definition find_duplicates ::
  "(string \<Rightarrow> string) \<Rightarrow> path \<Rightarrow> bool \<Rightarrow> filesystem \<Rightarrow> (error + groups) \<times> filesystem" where
  "find_duplicates md5 directory include_subfolders fs =
     (case count_total_files directory include_subfolders fs of
        (Inl e, fs1) \<Rightarrow> (Inl e, fs1)
      | (Inr total_files, fs1) \<Rightarrow>
          if total_files = 0 then (Inr [], fs1)
          else
            (case scan_sizes directory include_subfolders fs1 of
               (Inl e, fs2) \<Rightarrow> (Inl e, fs2)
             | (Inr (files_by_size, processed_files), fs2) \<Rightarrow>
                 if files_to_hash files_by_size = 0 then (Inr [], fs2)
                 else
                   (case hash_buckets md5 files_by_size ([], 0) fs2 of
                      ((duplicates, hashed_files), fs3) \<Rightarrow> (Inr duplicates, fs3))))"

section \<open>Resolution\<close>

text \<open>
  \<^verbatim>\<open>file_list.sort(key=lambda x: os.path.getmtime(x))\<close>: the keys of all members are computed
  first, in list order, and the first failing \<^verbatim>\<open>getmtime\<close> raises out of the sort (it is not
  inside any \<^verbatim>\<open>try\<close>); then the list is sorted by key with Python's stable sort.
\<close>

fun getmtimes :: "path list \<Rightarrow> filesystem \<Rightarrow> (error + int list) \<times> filesystem" where
  "getmtimes [] fs = (Inr [], fs)"
| "getmtimes (p # ps) fs =
     (case os_path_getmtime p fs of
        (Inl e, fs1) \<Rightarrow> (Inl e, fs1)
      | (Inr t, fs1) \<Rightarrow>
          (case getmtimes ps fs1 of
             (Inl e, fs2) \<Rightarrow> (Inl e, fs2)
           | (Inr ts, fs2) \<Rightarrow> (Inr (t # ts), fs2)))"

definition sort_by_mtime :: "path list \<Rightarrow> filesystem \<Rightarrow> (error + path list) \<times> filesystem" where
  "sort_by_mtime file_list fs =
     (case getmtimes file_list fs of
        (Inl e, fs1) \<Rightarrow> (Inl e, fs1)
      | (Inr keys, fs1) \<Rightarrow> (Inr (map snd (sort_key fst (zip keys file_list))), fs1))"

text \<open>The slices \<^verbatim>\<open>file_list[1:]\<close> and \<^verbatim>\<open>file_list[:-1]\<close>.\<close>

definition files_to_delete :: "bool \<Rightarrow> path list \<Rightarrow> path list" where
  "files_to_delete keep_oldest file_list =
     (if keep_oldest then drop 1 file_list else butlast file_list)"

text \<open>The deletion loop of \<^verbatim>\<open>delete_duplicates\<close>; the loop state is
  \<open>(deleted_count, reclaimed_space)\<close>. Both \<^verbatim>\<open>getsize\<close> and \<^verbatim>\<open>remove\<close> are inside the \<^verbatim>\<open>try\<close>,
  whose \<^verbatim>\<open>except\<close> branch is \<^verbatim>\<open>continue\<close>.\<close>

fun delete_files ::
  "path list \<Rightarrow> nat \<times> nat \<Rightarrow> filesystem \<Rightarrow> (nat \<times> nat) \<times> filesystem" where
  "delete_files [] st fs = (st, fs)"
| "delete_files (filepath # fl) (deleted_count, reclaimed_space) fs =
     (case os_path_getsize filepath fs of
        (Inl e, fs1) \<Rightarrow> delete_files fl (deleted_count, reclaimed_space) fs1
      | (Inr file_size, fs1) \<Rightarrow>
          (case os_remove filepath fs1 of
             (Inl e, fs2) \<Rightarrow> delete_files fl (deleted_count, reclaimed_space) fs2
           | (Inr u, fs2) \<Rightarrow>
               delete_files fl (deleted_count + 1, reclaimed_space + file_size) fs2))"

fun delete_groups ::
  "bool \<Rightarrow> path list list \<Rightarrow> nat \<times> nat \<Rightarrow> filesystem \<Rightarrow>
     (error + nat \<times> nat) \<times> filesystem" where
  "delete_groups keep_oldest [] st fs = (Inr st, fs)"
| "delete_groups keep_oldest (file_list # rest) st fs =
     (case sort_by_mtime file_list fs of
        (Inl e, fs1) \<Rightarrow> (Inl e, fs1)
      | (Inr sorted_list, fs1) \<Rightarrow>
          (case delete_files (files_to_delete keep_oldest sorted_list) st fs1 of
             (st1, fs2) \<Rightarrow> delete_groups keep_oldest rest st1 fs2))"

text \<open>\<^verbatim>\<open>delete_duplicates\<close>: the loop runs over \<^verbatim>\<open>duplicates.values()\<close>; the result is the pair
  \<open>(deleted_count, reclaimed_space)\<close>.\<close>

definition delete_duplicates ::
  "groups \<Rightarrow> bool \<Rightarrow> filesystem \<Rightarrow> (error + nat \<times> nat) \<times> filesystem" where
  "delete_duplicates duplicates keep_oldest fs =
     delete_groups keep_oldest (map snd duplicates) (0, 0) fs"

subsection \<open>Interactive resolution\<close>

text \<open>
  The terminal: the lines still to be read by \<^verbatim>\<open>input()\<close> and what has been printed. A printed
  line is recorded by what it reports, not by its layout; writing to the terminal does not
  fail.

  \<^verbatim>\<open>datetime.fromtimestamp(mod_time).strftime(...)\<close> is library code whose range depends on the
  platform and the time zone: it is the parameter \<open>fromtimestamp\<close>, which returns the formatted
  date or the exception it raises for a time out of range (\<^verbatim>\<open>ValueError\<close>, \<^verbatim>\<open>OverflowError\<close> or
  \<^verbatim>\<open>OSError\<close>). No \<^verbatim>\<open>try\<close> of \<^verbatim>\<open>delete_interactive\<close> encloses that call.
\<close>

datatype message =
    GroupHeader nat nat
  | FileLine nat path string
  | Keeping path
  | Deleted path
  | FailedToDelete path

type_synonym terminal = "string list \<times> message list"

definition print :: "message \<Rightarrow> terminal \<Rightarrow> terminal" where
  "print m tm = (fst tm, snd tm @ [m])"

definition input :: "terminal \<Rightarrow> (error + string) \<times> terminal" where
  "input tm =
     (case fst tm of
        [] \<Rightarrow> (Inl EOFError, tm)
      | line # rest \<Rightarrow> (Inr line, (rest, snd tm)))"

definition is_space :: "char \<Rightarrow> bool" where
  "is_space c = ((of_char c :: nat) \<in> {9, 10, 11, 12, 13, 28, 29, 30, 31, 32, 133, 160})"

definition strip :: "string \<Rightarrow> string" where
  "strip s = rev (dropWhile is_space (rev (dropWhile is_space s)))"

text \<open>The listing loop \<^verbatim>\<open>for i, filepath in enumerate(file_list, 1)\<close>.\<close>

fun list_group ::
  "(int \<Rightarrow> error + string) \<Rightarrow> nat \<Rightarrow> path list \<Rightarrow> terminal \<Rightarrow> filesystem \<Rightarrow>
     (error + terminal) \<times> filesystem" where
  "list_group fromtimestamp i [] tm fs = (Inr tm, fs)"
| "list_group fromtimestamp i (filepath # fl) tm fs =
     (case os_path_getmtime filepath fs of
        (Inl e, fs1) \<Rightarrow> (Inl e, fs1)
      | (Inr mod_time, fs1) \<Rightarrow>
          (case fromtimestamp mod_time of
             Inl e \<Rightarrow> (Inl e, fs1)
           | Inr mod_date \<Rightarrow>
               list_group fromtimestamp (i + 1) fl
                 (print (FileLine i filepath mod_date) tm) fs1))"

text \<open>The deletion loop of \<^verbatim>\<open>delete_interactive\<close>, which prints the outcome of every file.\<close>

fun delete_files_reporting ::
  "path list \<Rightarrow> nat \<times> nat \<Rightarrow> terminal \<Rightarrow> filesystem \<Rightarrow>
     ((nat \<times> nat) \<times> terminal) \<times> filesystem" where
  "delete_files_reporting [] st tm fs = ((st, tm), fs)"
| "delete_files_reporting (filepath # fl) (deleted_count, reclaimed_space) tm fs =
     (case os_path_getsize filepath fs of
        (Inl e, fs1) \<Rightarrow>
          delete_files_reporting fl (deleted_count, reclaimed_space)
            (print (FailedToDelete filepath) tm) fs1
      | (Inr file_size, fs1) \<Rightarrow>
          (case os_remove filepath fs1 of
             (Inl e, fs2) \<Rightarrow>
               delete_files_reporting fl (deleted_count, reclaimed_space)
                 (print (FailedToDelete filepath) tm) fs2
           | (Inr u, fs2) \<Rightarrow>
               delete_files_reporting fl (deleted_count + 1, reclaimed_space + file_size)
                 (print (Deleted filepath) tm) fs2))"

text \<open>One iteration of the loop of \<^verbatim>\<open>delete_interactive\<close> over the groups. Indexing the sorted
  list (\<^verbatim>\<open>file_list[0]\<close>, \<^verbatim>\<open>file_list[-1]\<close>) raises on an empty group.\<close>

definition interactive_group ::
  "(int \<Rightarrow> error + string) \<Rightarrow> bool \<Rightarrow> path list \<Rightarrow> nat \<times> nat \<Rightarrow> terminal \<Rightarrow> filesystem \<Rightarrow>
     (error + (nat \<times> nat) \<times> terminal) \<times> filesystem" where
  "interactive_group fromtimestamp keep_oldest file_list st tm fs =
     (case sort_by_mtime file_list fs of
        (Inl e, fs1) \<Rightarrow> (Inl e, fs1)
      | (Inr sorted_list, fs1) \<Rightarrow>
          if sorted_list = [] then (Inl IndexError, fs1)
          else
            let file_to_keep = (if keep_oldest then hd sorted_list else last sorted_list);
                to_delete = files_to_delete keep_oldest sorted_list
            in
            (case os_path_getsize (hd sorted_list) fs1 of
               (Inl e, fs2) \<Rightarrow> (Inl e, fs2)
             | (Inr first_size, fs2) \<Rightarrow>
                 (case list_group fromtimestamp 1 sorted_list
                         (print (GroupHeader (length sorted_list) first_size) tm) fs2 of
                    (Inl e, fs3) \<Rightarrow> (Inl e, fs3)
                  | (Inr tm1, fs3) \<Rightarrow>
                      (case input (print (Keeping file_to_keep) tm1) of
                         (Inl e, tm2) \<Rightarrow> (Inl e, fs3)
                       | (Inr answer, tm2) \<Rightarrow>
                           if lower (strip answer) = ''y'' then
                             (case delete_files_reporting to_delete st tm2 fs3 of
                                (r, fs4) \<Rightarrow> (Inr r, fs4))
                           else (Inr (st, tm2), fs3)))))"

fun interactive_groups ::
  "(int \<Rightarrow> error + string) \<Rightarrow> bool \<Rightarrow> path list list \<Rightarrow> nat \<times> nat \<Rightarrow> terminal \<Rightarrow> filesystem \<Rightarrow>
     (error + (nat \<times> nat) \<times> terminal) \<times> filesystem" where
  "interactive_groups fromtimestamp keep_oldest [] st tm fs = (Inr (st, tm), fs)"
| "interactive_groups fromtimestamp keep_oldest (file_list # rest) st tm fs =
     (case interactive_group fromtimestamp keep_oldest file_list st tm fs of
        (Inl e, fs1) \<Rightarrow> (Inl e, fs1)
      | (Inr (st1, tm1), fs1) \<Rightarrow>
          interactive_groups fromtimestamp keep_oldest rest st1 tm1 fs1)"

definition delete_interactive ::
  "(int \<Rightarrow> error + string) \<Rightarrow> groups \<Rightarrow> bool \<Rightarrow> terminal \<Rightarrow> filesystem \<Rightarrow>
     (error + (nat \<times> nat) \<times> terminal) \<times> filesystem" where
  "delete_interactive fromtimestamp duplicates keep_oldest tm fs =
     interactive_groups fromtimestamp keep_oldest (map snd duplicates) (0, 0) tm fs"

section \<open>What the read-only system calls return\<close>

text \<open>The results of the read-only calls, as functions of the state; used to state
  properties.\<close>

definition getsize :: "filesystem \<Rightarrow> path \<Rightarrow> error + nat" where
  "getsize fs p = fst (os_path_getsize p fs)"

definition getmtime :: "filesystem \<Rightarrow> path \<Rightarrow> error + int" where
  "getmtime fs p = fst (os_path_getmtime p fs)"

definition isfile :: "filesystem \<Rightarrow> path \<Rightarrow> bool" where
  "isfile fs p = fst (os_path_isfile p fs)"

definition file_hash :: "(string \<Rightarrow> string) \<Rightarrow> filesystem \<Rightarrow> path \<Rightarrow> string option" where
  "file_hash md5 fs p = fst (calculate_file_hash md5 p 65536 fs)"

section \<open>The loops in closed form\<close>

text \<open>
  The definitions of this section are not part of the program. They describe what its loops
  compute, and each is connected to the loop it describes by a lemma below.

  Filling a \<^verbatim>\<open>defaultdict(list)\<close> in a loop: every element with a key is appended to the list
  of its key.
\<close>

definition group_by :: "('a \<Rightarrow> 'k option) \<Rightarrow> 'a list \<Rightarrow> ('k \<times> 'a list) list \<Rightarrow> ('k \<times> 'a list) list" where
  "group_by key ps d = fold (\<lambda>p d. case key p of None \<Rightarrow> d | Some k \<Rightarrow> dict_append k p d) ps d"

text \<open>The key of the size scan: the size, when \<^verbatim>\<open>getsize\<close> does not raise.\<close>

definition size_key :: "filesystem \<Rightarrow> path \<Rightarrow> nat option" where
  "size_key fs p = (case getsize fs p of Inr n \<Rightarrow> Some n | Inl e \<Rightarrow> None)"

text \<open>The state of the size scan after the paths \<open>ps\<close>, and after one path.\<close>

definition scan_paths :: "filesystem \<Rightarrow> path list \<Rightarrow> buckets \<times> nat \<Rightarrow> buckets \<times> nat" where
  "scan_paths fs ps st = (group_by (size_key fs) ps (fst st), snd st + length ps)"

definition scan_step :: "filesystem \<Rightarrow> path \<Rightarrow> buckets \<times> nat \<Rightarrow> buckets \<times> nat" where
  "scan_step fs p st =
     ((case size_key fs p of None \<Rightarrow> fst st | Some k \<Rightarrow> dict_append k p (fst st)), Suc (snd st))"

text \<open>The paths on which the body of the size scan runs, in recursive mode and in
  non-recursive mode.\<close>

definition walk_paths :: "(path \<times> string list \<times> string list) list \<Rightarrow> path list" where
  "walk_paths triples = concat (map (\<lambda>(root, dirs, fnames). map (os_path_join root) fnames) triples)"

definition listdir_paths :: "filesystem \<Rightarrow> path \<Rightarrow> string list \<Rightarrow> path list" where
  "listdir_paths fs directory names = filter (isfile fs) (map (os_path_join directory) names)"

text \<open>The key of the hashing loop: the digest, when it passes the test \<^verbatim>\<open>if file_hash:\<close>.\<close>

definition digest_key :: "(string \<Rightarrow> string) \<Rightarrow> filesystem \<Rightarrow> path \<Rightarrow> string option" where
  "digest_key md5 fs p =
     (case file_hash md5 fs p of None \<Rightarrow> None | Some h \<Rightarrow> if h \<noteq> [] then Some h else None)"

text \<open>The dictionary \<^verbatim>\<open>duplicates\<close> after the hashing loop over the buckets.\<close>

fun collect_groups :: "(string \<Rightarrow> string) \<Rightarrow> filesystem \<Rightarrow> buckets \<Rightarrow> groups \<Rightarrow> groups" where
  "collect_groups md5 fs [] dups = dups"
| "collect_groups md5 fs ((file_size, fl) # files_by_size) dups =
     collect_groups md5 fs files_by_size
       (if length fl > 1 then store_groups (group_by (digest_key md5 fs) fl []) dups else dups)"

text \<open>The files a scan of \<open>directory\<close> visits, and when the scan raises: \<^verbatim>\<open>os.listdir\<close> raises
  on a directory it cannot list, \<^verbatim>\<open>os.walk\<close> does not.\<close>

definition visited :: "filesystem \<Rightarrow> path \<Rightarrow> bool \<Rightarrow> path list" where
  "visited fs directory include_subfolders =
     (if include_subfolders then walk_paths (walk fs directory)
      else (case listdir fs directory of
              None \<Rightarrow> []
            | Some names \<Rightarrow> listdir_paths fs directory names))"

definition listing_fails :: "filesystem \<Rightarrow> path \<Rightarrow> bool \<Rightarrow> bool" where
  "listing_fails fs directory include_subfolders \<longleftrightarrow>
     \<not> include_subfolders \<and> listdir fs directory = None"

text \<open>The dictionary \<^verbatim>\<open>files_by_size\<close> after the scan of the paths \<open>ps\<close>.\<close>

definition size_buckets :: "filesystem \<Rightarrow> path list \<Rightarrow> buckets" where
  "size_buckets fs ps = group_by (size_key fs) ps []"

section \<open>An example directory\<close>

text \<open>
  The scenario of the specification, with two bytes per file instead of a hundred:
  \<^verbatim>\<open>a\<close> and \<^verbatim>\<open>b\<close> have the same content, \<^verbatim>\<open>c\<close> has the same size and another content,
  \<^verbatim>\<open>locked\<close> can be neither opened nor removed, and \<^verbatim>\<open>gone\<close> is listed but no longer exists.
  The digest of the examples puts a mark before the content.
\<close>

definition plain_file :: "string \<Rightarrow> int \<Rightarrow> regfile" where
  "plain_file c t =
     \<lparr>content = c, mtime = t, stat_ok = True, open_ok = True, read_limit = None,
      remove_ok = True\<rparr>"

definition example_fs :: filesystem where
  "example_fs =
     \<lparr>files = [''/d/a'' \<mapsto> plain_file ''xx'' 1, ''/d/b'' \<mapsto> plain_file ''xx'' 2,
               ''/d/c'' \<mapsto> plain_file ''yy'' 3,
               ''/d/locked'' \<mapsto> (plain_file ''xx'' 4)\<lparr>open_ok := False, remove_ok := False\<rparr>],
      listdir = (\<lambda>d. if d = ''/d'' then Some [''a'', ''b'', ''c'', ''locked'', ''gone'']
                     else if d = ''/empty'' then Some [] else None),
      walk = (\<lambda>d. if d = ''/d'' then [(''/d'', [], [''a'', ''b'', ''c'', ''locked'', ''gone''])]
                  else if d = ''/empty'' then [(''/empty'', [], [])] else [])\<rparr>"

definition example_md5 :: "string \<Rightarrow> string" where
  "example_md5 s = ''#'' @ s"

section \<open>Notions used to state the resolution properties\<close>

text \<open>A removal attempt of \<^verbatim>\<open>delete_duplicates\<close> succeeds on a file exactly when its size can be
  queried and \<^verbatim>\<open>os.remove\<close> is permitted.\<close>

definition removable :: "filesystem \<Rightarrow> path \<Rightarrow> bool" where
  "removable fs p = (\<exists>f. files fs p = Some f \<and> stat_ok f \<and> remove_ok f)"

definition size_of :: "filesystem \<Rightarrow> path \<Rightarrow> nat" where
  "size_of fs p = (case files fs p of None \<Rightarrow> 0 | Some f \<Rightarrow> length (content f))"

definition unlink_all :: "path list \<Rightarrow> filesystem \<Rightarrow> filesystem" where
  "unlink_all ps fs = fold unlink ps fs"

text \<open>The modification times of the example directory.\<close>

definition example_mtime :: "path \<Rightarrow> int" where
  "example_mtime p =
     (if p = ''/d/a'' then 1 else if p = ''/d/b'' then 2 else if p = ''/d/c'' then 3 else 4)"

section \<open>Notions used to state the guard properties\<close>

text \<open>The directory names of \<open>protected_paths\<close>, without the slashes around them.\<close>

definition reserved_names :: "string list" where
  "reserved_names =
     [''windows'', ''system32'', ''program files'', ''programdata'', ''boot'',
      ''etc'', ''usr'', ''var'', ''lib'']"

text \<open>A date formatter for the example: times from 0 to 99 have a date, others are out of
  range.\<close>

definition example_fromtimestamp :: "int \<Rightarrow> error + string" where
  "example_fromtimestamp x = (if 0 \<le> x \<and> x < 100 then Inr ''date'' else Inl ValueError)"

section \<open>Read-only calls leave the state unchanged\<close>

lemma os_path_getsize_eq: "os_path_getsize p fs = (getsize fs p, fs)"
  by (simp add: getsize_def os_path_getsize_def split: option.splits)

lemma os_path_getmtime_eq: "os_path_getmtime p fs = (getmtime fs p, fs)"
  by (simp add: getmtime_def os_path_getmtime_def split: option.splits)

lemma os_path_isfile_eq: "os_path_isfile p fs = (isfile fs p, fs)"
  by (simp add: isfile_def os_path_isfile_def split: option.splits)

lemma calculate_file_hash_eq: "calculate_file_hash md5 p 65536 fs = (file_hash md5 fs p, fs)"
  by (simp add: file_hash_def calculate_file_hash_def split: option.splits sum.splits)

lemma drop_min_length: "drop (min (length ys) n) ys = drop n ys"
  by (cases "n \<le> length ys") (simp_all add: min_def)

lemma take_drop_chunk:
  "take n (drop off xs) @ drop (off + length (take n (drop off xs))) xs = drop off xs"
proof -
  let ?ys = "drop off xs"
  have "drop (off + length (take n ?ys)) xs = drop (length (take n ?ys)) ?ys"
    by (simp only: drop_drop add.commute)
  also have "\<dots> = drop (min (length ?ys) n) ?ys"
    by (simp only: length_take)
  also have "\<dots> = drop n ?ys"
    by (rule drop_min_length)
  finally have "drop (off + length (take n ?ys)) xs = drop n ?ys" .
  then show ?thesis
    by (simp only: append_take_drop_id)
qed

lemma read_chunks_all:
  "read_limit f = None \<Longrightarrow> 0 < n \<Longrightarrow>
   read_chunks f n offset fed = Inr (fed @ drop offset (content f))"
proof (induction f n offset fed rule: read_chunks.induct)
  case (1 f buffer_size offset fed)
  show ?case
  proof (cases "take buffer_size (drop offset (content f)) = []")
    case True
    with "1.prems" have "drop offset (content f) = []" by (simp add: take_eq_Nil)
    with True "1.prems" show ?thesis by (subst read_chunks.simps) simp
  next
    case False
    let ?data = "take buffer_size (drop offset (content f))"
    have "read_chunks f buffer_size offset fed =
          read_chunks f buffer_size (offset + length ?data) (fed @ ?data)"
      using False "1.prems" by (subst read_chunks.simps) (simp add: Let_def)
    also have "\<dots> = Inr ((fed @ ?data) @ drop (offset + length ?data) (content f))"
      using "1.IH"[OF _ refl False] "1.prems" by simp
    finally show ?thesis by (simp only: append_assoc take_drop_chunk)
  qed
qed

lemma read_chunks_fault:
  "read_limit f = Some k \<Longrightarrow> k \<le> length (content f) \<Longrightarrow> 0 < n \<Longrightarrow>
   read_chunks f n offset fed = Inl OSError"
proof (induction f n offset fed rule: read_chunks.induct)
  case (1 f buffer_size offset fed)
  show ?case
  proof (cases "k \<le> offset")
    case True
    with "1.prems" show ?thesis by (subst read_chunks.simps) simp
  next
    case False
    let ?data = "take buffer_size (drop offset (content f))"
    from False "1.prems" have ne: "?data \<noteq> []" by (simp add: take_eq_Nil)
    have "read_chunks f buffer_size offset fed =
          read_chunks f buffer_size (offset + length ?data) (fed @ ?data)"
      using False ne "1.prems" by (subst read_chunks.simps) (simp add: Let_def)
    also have "\<dots> = Inl OSError"
      using "1.IH"[OF _ refl ne] False "1.prems" by simp
    finally show ?thesis .
  qed
qed

lemma file_hash_readable:
  "files fs p = Some f \<Longrightarrow> open_ok f \<Longrightarrow> read_limit f = None \<Longrightarrow>
   file_hash md5 fs p = Some (md5 (content f))"
  by (simp add: file_hash_def calculate_file_hash_def read_chunks_all)

lemma group_by_Nil [simp]: "group_by key [] d = d"
  by (simp add: group_by_def)

lemma group_by_Cons [simp]:
  "group_by key (p # ps) d =
     group_by key ps (case key p of None \<Rightarrow> d | Some k \<Rightarrow> dict_append k p d)"
  by (simp add: group_by_def)

lemma distinct_dict_append: "distinct (map fst d) \<Longrightarrow> distinct (map fst (dict_append k v d))"
  by (simp add: dict_append_def distinct_map_default)

lemma map_of_dict_append:
  "map_of (dict_append k v d) =
     (map_of d)(k \<mapsto> (case map_of d k of None \<Rightarrow> [v] | Some l \<Rightarrow> l @ [v]))"
  by (auto simp: dict_append_def map_of_map_default split: option.splits)

lemma distinct_group_by:
  "distinct (map fst d) \<Longrightarrow> distinct (map fst (group_by key ps d))"
  by (induction ps arbitrary: d) (auto simp: distinct_dict_append split: option.splits)

lemma map_of_group_by:
  "map_of (group_by key ps d) k =
     (case map_of d k of
        None \<Rightarrow> (if filter (\<lambda>p. key p = Some k) ps = [] then None
                 else Some (filter (\<lambda>p. key p = Some k) ps))
      | Some l \<Rightarrow> Some (l @ filter (\<lambda>p. key p = Some k) ps))"
proof (induction ps arbitrary: d)
  case Nil
  show ?case by (simp split: option.splits)
next
  case (Cons p ps)
  show ?case
    by (cases "key p") (auto simp: Cons.IH map_of_dict_append split: option.splits)
qed

lemma map_of_group_by_empty:
  "map_of (group_by key ps []) k =
     (if filter (\<lambda>p. key p = Some k) ps = [] then None
      else Some (filter (\<lambda>p. key p = Some k) ps))"
  by (simp add: map_of_group_by)

lemma group_by_member:
  assumes "(k, l) \<in> set (group_by key ps [])"
  shows "l = filter (\<lambda>p. key p = Some k) ps \<and> l \<noteq> []"
proof -
  have "distinct (map fst (group_by key ps []))"
    by (rule distinct_group_by) simp
  with assms have "map_of (group_by key ps []) k = Some l" by simp
  then show ?thesis by (simp add: map_of_group_by_empty split: if_splits)
qed

lemma scan_file_eq: "scan_file p st fs = (scan_step fs p st, fs)"
  by (cases st)
     (simp add: scan_file_def scan_step_def os_path_getsize_eq size_key_def split: sum.splits)

lemma scan_paths_Nil [simp]: "scan_paths fs [] st = st"
  by (simp add: scan_paths_def)

lemma scan_paths_Cons [simp]:
  "scan_paths fs (p # ps) st = scan_paths fs ps (scan_step fs p st)"
  by (simp add: scan_paths_def scan_step_def)

lemma scan_paths_append: "scan_paths fs (ps @ qs) st = scan_paths fs qs (scan_paths fs ps st)"
  by (simp add: scan_paths_def group_by_def)

lemma scan_names_eq:
  "scan_names root fnames st fs = (scan_paths fs (map (os_path_join root) fnames) st, fs)"
  by (induction fnames arbitrary: st) (simp_all add: scan_file_eq)

lemma scan_walk_eq:
  "scan_walk triples st fs = (scan_paths fs (walk_paths triples) st, fs)"
proof (induction triples arbitrary: st)
  case Nil
  show ?case by (simp add: walk_paths_def)
next
  case (Cons t ts)
  obtain root dirs fnames where t: "t = (root, dirs, fnames)" by (cases t)
  show ?case
    by (simp add: t scan_names_eq Cons.IH walk_paths_def scan_paths_append)
qed

lemma scan_listdir_eq:
  "scan_listdir directory names st fs = (scan_paths fs (listdir_paths fs directory names) st, fs)"
proof (induction names arbitrary: st)
  case Nil
  show ?case by (simp add: listdir_paths_def)
next
  case (Cons n ns)
  show ?case
  proof (cases "isfile fs (os_path_join directory n)")
    case True
    then show ?thesis
      by (simp add: os_path_isfile_eq scan_file_eq Cons.IH listdir_paths_def)
  next
    case False
    then show ?thesis
      by (simp add: os_path_isfile_eq Cons.IH listdir_paths_def)
  qed
qed

lemma count_isfile_eq:
  "count_isfile directory names fs = (length (listdir_paths fs directory names), fs)"
  by (induction names) (simp_all add: listdir_paths_def os_path_isfile_eq)

lemma hash_files_eq:
  "hash_files md5 fl (hashes, n) fs =
     ((group_by (digest_key md5 fs) fl hashes, n + length fl), fs)"
proof (induction fl arbitrary: hashes n)
  case Nil
  show ?case by simp
next
  case (Cons p ps)
  show ?case
    by (cases "file_hash md5 fs p")
       (simp_all add: calculate_file_hash_eq Cons.IH digest_key_def)
qed

lemma set_update_subset: "set (AList.update k v al) \<subseteq> insert (k, v) (set al)"
  by (induction al) auto

lemma store_groups_member:
  "(h, g) \<in> set (store_groups hashes dups) \<Longrightarrow>
   (h, g) \<in> set dups \<or> ((h, g) \<in> set hashes \<and> length g > 1)"
proof (induction hashes arbitrary: dups)
  case Nil
  then show ?case by simp
next
  case (Cons e hashes)
  obtain k fl where e: "e = (k, fl)" by (cases e)
  from Cons.prems have
    "(h, g) \<in> set (store_groups hashes
        (if length fl > 1 then AList.update k fl dups else dups))"
    by (simp add: e)
  from Cons.IH[OF this] show ?case
    using set_update_subset[of k fl dups] by (auto simp: e split: if_splits)
qed

lemma distinct_store_groups:
  "distinct (map fst dups) \<Longrightarrow> distinct (map fst (store_groups hashes dups))"
  by (induction hashes arbitrary: dups) (auto simp: distinct_update)

lemma map_of_store_groups:
  "distinct (map fst hashes) \<Longrightarrow>
   map_of (store_groups hashes dups) h =
     (case map_of hashes h of
        None \<Rightarrow> map_of dups h
      | Some g \<Rightarrow> if length g > 1 then Some g else map_of dups h)"
proof (induction hashes arbitrary: dups)
  case Nil
  show ?case by simp
next
  case (Cons e hashes)
  obtain k fl where e: "e = (k, fl)" by (cases e)
  from Cons.prems have d: "distinct (map fst hashes)" and k: "k \<notin> fst ` set hashes"
    by (auto simp: e)
  from k have none: "map_of hashes k = None" by (simp add: map_of_eq_None_iff)
  show ?case
    using none by (auto simp: e Cons.IH[OF d] update_conv' split: option.splits)
qed

lemma files_to_hash_Nil [simp]: "files_to_hash [] = 0"
  by (simp add: files_to_hash_def)

lemma files_to_hash_Cons [simp]:
  "files_to_hash ((file_size, fl) # files_by_size) =
     (if length fl > 1 then length fl else 0) + files_to_hash files_by_size"
  by (simp add: files_to_hash_def)

lemma hash_buckets_eq:
  "hash_buckets md5 files_by_size (dups, n) fs =
     ((collect_groups md5 fs files_by_size dups, n + files_to_hash files_by_size), fs)"
proof (induction files_by_size arbitrary: dups n)
  case Nil
  show ?case by simp
next
  case (Cons b bs)
  obtain file_size fl where b: "b = (file_size, fl)" by (cases b)
  show ?case by (simp add: b hash_files_eq Cons.IH)
qed

lemma collect_groups_member:
  "(h, g) \<in> set (collect_groups md5 fs files_by_size dups) \<Longrightarrow>
   (h, g) \<in> set dups \<or>
   (\<exists>file_size fl. (file_size, fl) \<in> set files_by_size \<and> length fl > 1 \<and>
        g = filter (\<lambda>p. digest_key md5 fs p = Some h) fl \<and> length g > 1)"
proof (induction files_by_size arbitrary: dups)
  case Nil
  then show ?case by simp
next
  case (Cons b bs)
  obtain file_size fl where b: "b = (file_size, fl)" by (cases b)
  let ?dups1 = "if length fl > 1 then store_groups (group_by (digest_key md5 fs) fl []) dups else dups"
  from Cons.prems have "(h, g) \<in> set (collect_groups md5 fs bs ?dups1)" by (simp add: b)
  from Cons.IH[OF this] show ?case
  proof
    assume "(h, g) \<in> set ?dups1"
    then have "(h, g) \<in> set dups \<or>
        (length fl > 1 \<and> (h, g) \<in> set (group_by (digest_key md5 fs) fl []) \<and> length g > 1)"
      using store_groups_member[of h g "group_by (digest_key md5 fs) fl []" dups]
      by (auto split: if_splits)
    then show ?thesis
      using group_by_member[of h g "digest_key md5 fs" fl] by (auto simp: b)
  next
    assume "\<exists>file_size fl. (file_size, fl) \<in> set bs \<and> length fl > 1 \<and>
        g = filter (\<lambda>p. digest_key md5 fs p = Some h) fl \<and> length g > 1"
    then show ?thesis by (auto simp: b)
  qed
qed

lemma distinct_collect_groups:
  "distinct (map fst dups) \<Longrightarrow> distinct (map fst (collect_groups md5 fs files_by_size dups))"
  by (induction files_by_size arbitrary: dups) (auto simp: distinct_store_groups)

lemma map_of_collect_groups_other:
  "\<forall>(file_size, fl) \<in> set files_by_size. filter (\<lambda>p. digest_key md5 fs p = Some h) fl = [] \<Longrightarrow>
   map_of (collect_groups md5 fs files_by_size dups) h = map_of dups h"
proof (induction files_by_size arbitrary: dups)
  case Nil
  show ?case by simp
next
  case (Cons b bs)
  obtain file_size fl where b: "b = (file_size, fl)" by (cases b)
  from Cons.prems have here: "filter (\<lambda>p. digest_key md5 fs p = Some h) fl = []"
    and rest: "\<forall>(file_size, fl) \<in> set bs. filter (\<lambda>p. digest_key md5 fs p = Some h) fl = []"
    by (auto simp: b)
  have dg: "distinct (map fst (group_by (digest_key md5 fs) fl []))"
    by (rule distinct_group_by) simp
  have "map_of (store_groups (group_by (digest_key md5 fs) fl []) dups) h = map_of dups h"
    by (simp add: map_of_store_groups[OF dg] map_of_group_by_empty here)
  then show ?case
    by (simp add: b Cons.IH[OF rest])
qed

lemma map_of_collect_groups:
  assumes "distinct (map fst files_by_size)"
    and "(file_size, fl) \<in> set files_by_size"
    and "length (filter (\<lambda>p. digest_key md5 fs p = Some h) fl) > 1"
    and "\<forall>(file_size', fl') \<in> set files_by_size. file_size' \<noteq> file_size \<longrightarrow>
           filter (\<lambda>p. digest_key md5 fs p = Some h) fl' = []"
  shows "map_of (collect_groups md5 fs files_by_size dups) h =
           Some (filter (\<lambda>p. digest_key md5 fs p = Some h) fl)"
  using assms
proof (induction files_by_size arbitrary: dups)
  case Nil
  then show ?case by simp
next
  case (Cons b bs)
  obtain sz0 fl0 where b: "b = (sz0, fl0)" by (cases b)
  have dg: "distinct (map fst (group_by (digest_key md5 fs) fl0 []))"
    by (rule distinct_group_by) simp
  show ?case
  proof (cases "sz0 = file_size")
    case True
    with Cons.prems(1,2) have fl0: "fl0 = fl"
      by (auto simp: b image_iff)
    from Cons.prems(1) True have notin: "file_size \<notin> fst ` set bs" by (simp add: b)
    have rest: "\<forall>(file_size', fl') \<in> set bs. filter (\<lambda>p. digest_key md5 fs p = Some h) fl' = []"
    proof (clarify)
      fix sz' fl'
      assume m: "(sz', fl') \<in> set bs"
      with notin have "sz' \<noteq> file_size" by (force simp: image_iff)
      with Cons.prems(4) m show "filter (\<lambda>p. digest_key md5 fs p = Some h) fl' = []"
        by (auto simp: b)
    qed
    have len: "length fl > 1"
      using Cons.prems(3) length_filter_le[of "\<lambda>p. digest_key md5 fs p = Some h" fl] by linarith
    have "map_of (store_groups (group_by (digest_key md5 fs) fl []) dups) h =
            Some (filter (\<lambda>p. digest_key md5 fs p = Some h) fl)"
      using Cons.prems(3) dg
      by (auto simp: fl0 map_of_store_groups map_of_group_by_empty)
    then show ?thesis
      using len by (simp add: b fl0 map_of_collect_groups_other[OF rest])
  next
    case False
    with Cons.prems have d: "distinct (map fst bs)" and m: "(file_size, fl) \<in> set bs"
      and r: "\<forall>(file_size', fl') \<in> set bs. file_size' \<noteq> file_size \<longrightarrow>
           filter (\<lambda>p. digest_key md5 fs p = Some h) fl' = []"
      by (auto simp: b)
    show ?thesis
      by (simp add: b Cons.IH[OF d m Cons.prems(3) r])
  qed
qed

lemma length_walk_paths:
  "sum_list (map (\<lambda>(root, dirs, fnames). length fnames) triples) = length (walk_paths triples)"
  by (induction triples) (auto simp: walk_paths_def)

lemma count_total_files_eq:
  "count_total_files directory include_subfolders fs =
     ((if listing_fails fs directory include_subfolders then Inl OSError
       else Inr (length (visited fs directory include_subfolders))), fs)"
  by (simp add: count_total_files_def os_walk_def os_listdir_def count_isfile_eq
      length_walk_paths visited_def listing_fails_def split: option.splits)

lemma scan_sizes_eq:
  "scan_sizes directory include_subfolders fs =
     ((if listing_fails fs directory include_subfolders then Inl OSError
       else Inr (scan_paths fs (visited fs directory include_subfolders) ([], 0))), fs)"
  by (simp add: scan_sizes_def os_walk_def os_listdir_def scan_walk_eq scan_listdir_eq
      visited_def listing_fails_def split: option.splits)

lemma collect_groups_small:
  "files_to_hash files_by_size = 0 \<Longrightarrow> collect_groups md5 fs files_by_size dups = dups"
proof (induction files_by_size arbitrary: dups)
  case Nil
  show ?case by simp
next
  case (Cons b bs)
  obtain file_size fl where b: "b = (file_size, fl)" by (cases b)
  from Cons.prems show ?case by (auto simp: b Cons.IH split: if_splits)
qed

lemma scan_paths_start: "scan_paths fs ps ([], 0) = (size_buckets fs ps, length ps)"
  by (simp add: scan_paths_def size_buckets_def)

lemma find_duplicates_eq:
  "find_duplicates md5 directory include_subfolders fs =
     ((if listing_fails fs directory include_subfolders then Inl OSError
       else Inr (collect_groups md5 fs
                   (size_buckets fs (visited fs directory include_subfolders)) [])), fs)"
proof (cases "listing_fails fs directory include_subfolders")
  case True
  then show ?thesis by (simp add: find_duplicates_def count_total_files_eq)
next
  case False
  show ?thesis
  proof (cases "visited fs directory include_subfolders = []")
    case True
    with False show ?thesis
      by (simp add: find_duplicates_def count_total_files_eq size_buckets_def)
  next
    case ne: False
    show ?thesis
    proof (cases "files_to_hash (size_buckets fs (visited fs directory include_subfolders)) = 0")
      case True
      with False ne show ?thesis
        by (simp add: find_duplicates_def count_total_files_eq scan_sizes_eq scan_paths_start
            collect_groups_small)
    next
      case nz: False
      with False ne show ?thesis
        by (simp add: find_duplicates_def count_total_files_eq scan_sizes_eq scan_paths_start
            hash_buckets_eq)
    qed
  qed
qed

lemma size_buckets_member:
  "(file_size, fl) \<in> set (size_buckets fs ps) \<Longrightarrow>
   fl = filter (\<lambda>p. size_key fs p = Some file_size) ps \<and> fl \<noteq> []"
  unfolding size_buckets_def by (rule group_by_member)

lemma distinct_size_buckets: "distinct (map fst (size_buckets fs ps))"
  unfolding size_buckets_def by (rule distinct_group_by) simp

lemma find_duplicates_member:
  assumes "find_duplicates md5 directory include_subfolders fs = (Inr duplicates, fs')"
    and "(h, g) \<in> set duplicates"
  shows "\<exists>file_size. g = filter (\<lambda>p. digest_key md5 fs p = Some h)
                    (filter (\<lambda>p. size_key fs p = Some file_size)
                       (visited fs directory include_subfolders))
           \<and> length g > 1"
proof -
  from assms(1) have "duplicates = collect_groups md5 fs
                   (size_buckets fs (visited fs directory include_subfolders)) []"
    by (auto simp: find_duplicates_eq split: if_splits)
  with assms(2) have "(h, g) \<in> set (collect_groups md5 fs
                   (size_buckets fs (visited fs directory include_subfolders)) [])"
    by simp
  from collect_groups_member[OF this]
  obtain file_size fl where
    "(file_size, fl) \<in> set (size_buckets fs (visited fs directory include_subfolders))"
    "g = filter (\<lambda>p. digest_key md5 fs p = Some h) fl" "length g > 1"
    by auto
  with size_buckets_member[of file_size fl] show ?thesis by blast
qed

section \<open>The guard, unfolded\<close>

lemma is_protected_directory_iff:
  "is_protected_directory abspath p \<longleftrightarrow>
     (length (path_lower_of abspath p) \<le> 3 \<and> CHR '':'' \<in> set (path_lower_of abspath p)) \<or>
     (\<exists>q \<in> set protected_paths. sublist q (path_lower_of abspath p))"
  by (auto simp: is_protected_directory_def Let_def list_ex_iff)

lemma photos_lower: "path_lower_of (posix_abspath cwd) ''/home/alice/photos'' = ''/home/alice/photos''"
  by (simp add: path_lower_of_def posix_abspath_def normpath_def Let_def lower_def lower_char_def replace_backslash_def)

lemma photos: "\<not> is_protected_directory (posix_abspath cwd) ''/home/alice/photos''"
  unfolding is_protected_directory_iff photos_lower
  by (simp add: protected_paths_def sublist_Cons_right)

lemma drive_root_lower: "path_lower_of (\<lambda>p. p) [CHR ''C'', CHR '':'', CHR 0x5C] = ''c:/''"
  by code_simp

lemma etc_passwd_lower: "path_lower_of (posix_abspath ''/home/alice'') ''/etc/passwd'' = ''/etc/passwd''"
  by (simp add: path_lower_of_def posix_abspath_def normpath_def Let_def lower_def lower_char_def replace_backslash_def)

lemma root_lower: "path_lower_of (posix_abspath ''/home/alice'') ''/'' = ''/''"
  by (simp add: path_lower_of_def posix_abspath_def normpath_def Let_def lower_def lower_char_def replace_backslash_def)

lemma etc_lower: "path_lower_of (posix_abspath ''/home/alice'') ''/etc'' = ''/etc''"
  by (simp add: path_lower_of_def posix_abspath_def normpath_def Let_def lower_def lower_char_def replace_backslash_def)

lemma prefix_slash_in: "prefix q xs \<Longrightarrow> CHR ''/'' \<in> set q \<Longrightarrow> CHR ''/'' \<in> set xs"
  using set_mono_prefix by blast

lemma sublist_slash_in: "sublist q xs \<Longrightarrow> CHR ''/'' \<in> set q \<Longrightarrow> CHR ''/'' \<in> set xs"
  using set_mono_sublist by blast

lemma no_pattern_prefix_name:
  "CHR ''/'' \<notin> set name \<Longrightarrow> CHR ''/'' \<in> set q \<Longrightarrow> \<not> prefix q name"
  by (auto dest: prefix_slash_in)

lemma users_sub_no_pattern:
  assumes "CHR ''/'' \<notin> set name" and "q \<in> set protected_paths"
  shows "\<not> sublist q (''/users/'' @ name)"
proof -
  have np: "\<And>q. CHR ''/'' \<in> set q \<Longrightarrow> \<not> prefix q name"
    using assms(1) by (rule no_pattern_prefix_name)
  have ns: "\<And>q. CHR ''/'' \<in> set q \<Longrightarrow> \<not> sublist q name"
    using assms(1) sublist_slash_in by blast
  from assms(2) show ?thesis
    unfolding protected_paths_def by (auto simp: sublist_Cons_right np ns)
qed

lemma users_no_pattern:
  assumes "q \<in> set protected_paths"
  shows "\<not> sublist q ''/users''"
  using assms by (auto simp: protected_paths_def sublist_Cons_right)

lemma drive_no_pattern:
  assumes "q \<in> set protected_paths" and "\<not> sublist q rest"
  shows "\<not> sublist q ([d, CHR '':''] @ rest)"
proof -
  from assms(1) obtain q' where q: "q = CHR ''/'' # q'" and "q' \<noteq> []" "hd q' \<noteq> CHR '':''"
    by (auto simp: protected_paths_def)
  then have "\<not> prefix q (d # CHR '':'' # rest)" "\<not> prefix q (CHR '':'' # rest)"
    by (cases q'; auto)+
  with assms(2) show ?thesis by (simp add: sublist_Cons_right)
qed

lemma users_lower: "path_lower_of (posix_abspath ''/home/alice'') ''/Users'' = ''/users''"
  by code_simp

lemma users_bob_lower: "path_lower_of (posix_abspath ''/home/alice'') ''/Users/bob'' = ''/users/bob''"
  by code_simp

lemma win_users_lower:
  "path_lower_of (\<lambda>p. p) [CHR ''C'', CHR '':'', CHR 0x5C, CHR ''U'', CHR ''s'', CHR ''e'', CHR ''r'', CHR ''s''] = ''c:/users''"
  by code_simp

section \<open>The example directory, evaluated\<close>

lemma example_visited:
  "visited example_fs ''/d'' True = [''/d/a'', ''/d/b'', ''/d/c'', ''/d/locked'', ''/d/gone'']"
  by (simp add: visited_def walk_paths_def os_path_join_def example_fs_def suffix_to_prefix)

lemma example_visited_flat:
  "visited example_fs ''/d'' False = [''/d/a'', ''/d/b'', ''/d/c'', ''/d/locked'']"
  by (simp add: visited_def listdir_paths_def os_path_join_def example_fs_def isfile_def suffix_to_prefix
      os_path_isfile_def plain_file_def)

lemma example_size_key:
  "size_key example_fs ''/d/a'' = Some 2" "size_key example_fs ''/d/b'' = Some 2"
  "size_key example_fs ''/d/c'' = Some 2" "size_key example_fs ''/d/locked'' = Some 2"
  "size_key example_fs ''/d/gone'' = None"
  by (simp_all add: size_key_def getsize_def os_path_getsize_def example_fs_def plain_file_def)

lemma example_digest_key:
  "digest_key example_md5 example_fs ''/d/a'' = Some ''#xx''"
  "digest_key example_md5 example_fs ''/d/b'' = Some ''#xx''"
  "digest_key example_md5 example_fs ''/d/c'' = Some ''#yy''"
  "digest_key example_md5 example_fs ''/d/locked'' = None"
  by (simp_all add: digest_key_def file_hash_def calculate_file_hash_def read_chunks_all
      example_fs_def plain_file_def example_md5_def)

lemma example_buckets:
  "size_buckets example_fs [''/d/a'', ''/d/b'', ''/d/c'', ''/d/locked'', ''/d/gone''] =
     [(2, [''/d/a'', ''/d/b'', ''/d/c'', ''/d/locked''])]"
  by (simp add: size_buckets_def example_size_key dict_append_def)

lemma example_hashes:
  "group_by (digest_key example_md5 example_fs) [''/d/a'', ''/d/b'', ''/d/c'', ''/d/locked''] [] =
     [(''#xx'', [''/d/a'', ''/d/b'']), (''#yy'', [''/d/c''])]"
  by (simp add: example_digest_key dict_append_def)

lemma example_groups:
  "collect_groups example_md5 example_fs [(2, [''/d/a'', ''/d/b'', ''/d/c'', ''/d/locked''])] [] =
     [(''#xx'', [''/d/a'', ''/d/b''])]"
  by (simp add: example_digest_key dict_append_def)

lemma example_find_duplicates:
  "find_duplicates example_md5 ''/d'' True example_fs =
     (Inr [(''#xx'', [''/d/a'', ''/d/b''])], example_fs)"
  unfolding find_duplicates_eq example_visited example_buckets example_groups
  by (simp add: listing_fails_def)

lemma calculate_file_hash_frame: "snd (calculate_file_hash md5 p buffer_size fs) = fs"
  by (simp add: calculate_file_hash_def split: option.splits sum.splits)

lemma size_key_None: "getsize fs p = Inl e \<Longrightarrow> size_key fs p = None"
  by (simp add: size_key_def)

lemma size_buckets_skip:
  assumes "getsize fs p = Inl e" and "(file_size, fl) \<in> set (size_buckets fs ps)"
  shows "p \<notin> set fl"
proof -
  from assms(2) have "fl = filter (\<lambda>q. size_key fs q = Some file_size) ps"
    by (simp add: size_buckets_member)
  with size_key_None[OF assms(1)] show ?thesis by auto
qed

lemma scan_file_failing:
  "getsize fs p = Inl e \<Longrightarrow>
   scan_file p (files_by_size, processed_files) fs = ((files_by_size, processed_files + 1), fs)"
  by (simp add: scan_file_eq scan_step_def size_key_None)

lemma example_getsize_gone: "getsize example_fs ''/d/gone'' = Inl OSError"
  by (simp add: getsize_def os_path_getsize_def example_fs_def)

lemma example_visited_empty: "visited example_fs ''/empty'' False = []"
  by (simp add: visited_def listdir_paths_def example_fs_def)

lemma digest_key_Some: "digest_key md5 fs p = Some h \<Longrightarrow> file_hash md5 fs p = Some h \<and> h \<noteq> []"
  by (auto simp: digest_key_def split: option.splits if_splits)

lemma size_key_Some: "size_key fs p = Some n \<Longrightarrow> getsize fs p = Inr n"
  by (auto simp: size_key_def split: sum.splits)

lemma hashed_count:
  "snd (fst (hash_buckets md5 files_by_size (duplicates, 0) fs)) = files_to_hash files_by_size"
  by (simp add: hash_buckets_eq)

lemma calculate_file_hash_unreadable:
  assumes "files fs p = None \<or>
           (\<exists>f. files fs p = Some f \<and>
                (\<not> open_ok f \<or> (\<exists>k. read_limit f = Some k \<and> k \<le> length (content f))))"
    and "0 < buffer_size"
  shows "calculate_file_hash md5 p buffer_size fs = (None, fs)"
  using assms
  by (auto simp: calculate_file_hash_def read_chunks_fault split: option.splits)

lemma group_by_skip:
  "key bad = None \<Longrightarrow> group_by key (xs @ bad # ys) d = group_by key (xs @ ys) d"
  by (simp add: group_by_def)

lemma digest_key_None: "file_hash md5 fs p = None \<Longrightarrow> digest_key md5 fs p = None"
  by (simp add: digest_key_def)

lemma hash_files_skip:
  assumes "file_hash md5 fs bad = None"
  shows "hash_files md5 (xs @ bad # ys) (hashes, n) fs =
           (case hash_files md5 (xs @ ys) (hashes, n) fs of
              ((hashes', n'), fs') \<Rightarrow> ((hashes', n' + 1), fs'))"
  using group_by_skip[of "digest_key md5 fs" bad xs ys hashes] digest_key_None[OF assms]
  by (simp add: hash_files_eq)

lemma hash_files_groups:
  assumes "(h, g) \<in> set (fst (fst (hash_files md5 fl ([], n) fs)))"
  shows "g = filter (\<lambda>p. file_hash md5 fs p = Some h) fl"
proof -
  from assms have "(h, g) \<in> set (group_by (digest_key md5 fs) fl [])"
    by (simp add: hash_files_eq)
  from group_by_member[OF this] have g: "g = filter (\<lambda>p. digest_key md5 fs p = Some h) fl"
    and gne: "g \<noteq> []" by blast+
  then obtain p where "p \<in> set fl" "digest_key md5 fs p = Some h"
    by (auto simp: filter_empty_conv)
  then have hne: "h \<noteq> []" using digest_key_Some by blast
  have "\<And>p. digest_key md5 fs p = Some h \<longleftrightarrow> file_hash md5 fs p = Some h"
    using hne by (auto simp: digest_key_def split: option.splits)
  with g show ?thesis by simp
qed

lemma hash_files_complete:
  assumes "p \<in> set fl" and "file_hash md5 fs p = Some h" and "h \<noteq> []"
  shows "\<exists>g. (h, g) \<in> set (fst (fst (hash_files md5 fl ([], n) fs))) \<and> p \<in> set g"
proof -
  let ?g = "filter (\<lambda>p. digest_key md5 fs p = Some h) fl"
  from assms have dk: "digest_key md5 fs p = Some h" by (simp add: digest_key_def)
  with assms(1) have "p \<in> set ?g" by simp
  then have "?g \<noteq> []" by (auto simp: filter_empty_conv)
  then have "map_of (group_by (digest_key md5 fs) fl []) h = Some ?g"
    by (simp add: map_of_group_by_empty)
  then have "(h, ?g) \<in> set (group_by (digest_key md5 fs) fl [])"
    by (rule map_of_SomeD)
  with \<open>p \<in> set ?g\<close> show ?thesis by (auto simp: hash_files_eq)
qed

lemma example_locked: 
  "\<exists>f. files example_fs ''/d/locked'' = Some f \<and>
        (\<not> open_ok f \<or> (\<exists>k. read_limit f = Some k \<and> k \<le> length (content f)))"
  by (simp add: example_fs_def plain_file_def)

lemma example_file_hash:
  "file_hash example_md5 example_fs ''/d/a'' = Some ''#xx''"
  "file_hash example_md5 example_fs ''/d/b'' = Some ''#xx''"
  "file_hash example_md5 example_fs ''/d/c'' = Some ''#yy''"
  "file_hash example_md5 example_fs ''/d/locked'' = None"
  by (simp_all add: file_hash_def calculate_file_hash_def read_chunks_all
      example_fs_def plain_file_def example_md5_def)

section \<open>Files with the same content\<close>

lemma two_members_length:
  assumes "p1 \<in> set xs" "p2 \<in> set xs" "p1 \<noteq> p2"
  shows "length xs > 1"
proof (rule ccontr)
  assume "\<not> length xs > 1"
  then have "length xs \<le> 1" by simp
  then have "xs = [] \<or> (\<exists>x. xs = [x])"
    by (cases xs) auto
  with assms show False by auto
qed

lemma readable_digest_key:
  assumes "files fs p = Some f" "open_ok f" "read_limit f = None" "md5 (content f) \<noteq> []"
  shows "digest_key md5 fs p = Some (md5 (content f))"
  using assms by (simp add: digest_key_def file_hash_readable)

lemma stat_size_key:
  assumes "files fs p = Some f" "stat_ok f"
  shows "size_key fs p = Some (length (content f))"
  using assms by (simp add: size_key_def getsize_def os_path_getsize_def)

lemma find_duplicates_same_size:
  assumes "find_duplicates md5 directory include_subfolders fs = (Inr duplicates, fs')"
    and "e \<in> set duplicates" and "p \<in> set (snd e)" and "q \<in> set (snd e)"
  shows "getsize fs p = getsize fs q"
proof -
  obtain h g where e: "e = (h, g)" by (cases e)
  from find_duplicates_member[OF assms(1), of h g] assms(2) e obtain file_size where
    "g = filter (\<lambda>p. digest_key md5 fs p = Some h)
              (filter (\<lambda>p. size_key fs p = Some file_size)
                 (visited fs directory include_subfolders))"
    by blast
  with assms(3,4) e have "size_key fs p = Some file_size" "size_key fs q = Some file_size"
    by auto
  then show ?thesis by (simp add: size_key_Some)
qed

lemma identical_files_group:
  assumes S: "S \<subseteq> set vs"
    and same: "\<forall>p \<in> S. \<exists>f. files fs p = Some f \<and> content f = c \<and> stat_ok f \<and> open_ok f \<and>
                         read_limit f = None"
    and two: "p1 \<in> S" "p2 \<in> S" "p1 \<noteq> p2"
    and ne: "md5 c \<noteq> []"
    and nocoll: "\<forall>q \<in> set vs. file_hash md5 fs q = Some (md5 c) \<longrightarrow> getsize fs q = Inr (length c)"
  defines "G \<equiv> filter (\<lambda>p. digest_key md5 fs p = Some (md5 c))
                  (filter (\<lambda>p. size_key fs p = Some (length c)) vs)"
  shows "map_of (collect_groups md5 fs (size_buckets fs vs) []) (md5 c) = Some G \<and> S \<subseteq> set G"
proof -
  let ?B = "filter (\<lambda>p. size_key fs p = Some (length c)) vs"
  have keys: "\<And>p. p \<in> S \<Longrightarrow> size_key fs p = Some (length c) \<and>
                 digest_key md5 fs p = Some (md5 c)"
  proof -
    fix p assume "p \<in> S"
    with same obtain f where f: "files fs p = Some f" "content f = c" "stat_ok f" "open_ok f"
      "read_limit f = None" by blast
    from stat_size_key[OF f(1,3)] readable_digest_key[OF f(1,4,5), of md5] f(2) ne
    show "size_key fs p = Some (length c) \<and> digest_key md5 fs p = Some (md5 c)" by simp
  qed
  have SG: "S \<subseteq> set G" using S keys by (auto simp: G_def)
  with two have lenG: "length G > 1" using two_members_length[of p1 G p2] by blast
  have "p1 \<in> set ?B" using S two(1) keys by auto
  then have Bne: "?B \<noteq> []" by (auto simp: filter_empty_conv)
  have "map_of (size_buckets fs vs) (length c) = Some ?B"
    using Bne by (simp add: size_buckets_def map_of_group_by_empty)
  then have mem: "(length c, ?B) \<in> set (size_buckets fs vs)" by (rule map_of_SomeD)
  have other: "\<forall>(file_size', fl') \<in> set (size_buckets fs vs). file_size' \<noteq> length c \<longrightarrow>
           filter (\<lambda>p. digest_key md5 fs p = Some (md5 c)) fl' = []"
  proof (clarify)
    fix sz' fl'
    assume m: "(sz', fl') \<in> set (size_buckets fs vs)" and d: "sz' \<noteq> length c"
    from size_buckets_member[OF m] have fl': "fl' = filter (\<lambda>p. size_key fs p = Some sz') vs"
      by simp
    show "filter (\<lambda>p. digest_key md5 fs p = Some (md5 c)) fl' = []"
    proof (rule ccontr)
      assume "filter (\<lambda>p. digest_key md5 fs p = Some (md5 c)) fl' \<noteq> []"
      then obtain q where q: "q \<in> set fl'" "digest_key md5 fs q = Some (md5 c)"
        by (auto simp: filter_empty_conv)
      from q(1) fl' have qv: "q \<in> set vs" and qs: "size_key fs q = Some sz'" by auto
      from digest_key_Some[OF q(2)] have "file_hash md5 fs q = Some (md5 c)" by simp
      with nocoll qv have "getsize fs q = Inr (length c)" by blast
      then have "size_key fs q = Some (length c)" by (simp add: size_key_def)
      with qs d show False by simp
    qed
  qed
  have "map_of (collect_groups md5 fs (size_buckets fs vs) []) (md5 c) = Some G"
    unfolding G_def
    by (rule map_of_collect_groups[OF distinct_size_buckets mem lenG[unfolded G_def] other])
  with SG show ?thesis by simp
qed

lemma example_contents:
  "\<forall>p \<in> {''/d/a'', ''/d/b''}. \<exists>f. files example_fs p = Some f \<and> content f = ''xx'' \<and>
      stat_ok f \<and> open_ok f \<and> read_limit f = None"
  by (simp add: example_fs_def plain_file_def)

lemma example_getsize:
  "getsize example_fs ''/d/a'' = Inr 2" "getsize example_fs ''/d/b'' = Inr 2"
  by (simp_all add: getsize_def os_path_getsize_def example_fs_def plain_file_def)

lemma example_file_hash_gone: "file_hash example_md5 example_fs ''/d/gone'' = None"
  by (simp add: file_hash_def calculate_file_hash_def example_fs_def)

lemma example_no_collision:
  "\<forall>q \<in> set (visited example_fs ''/d'' True).
     file_hash example_md5 example_fs q = Some (example_md5 ''xx'') \<longrightarrow>
     getsize example_fs q = Inr (length ''xx'')"
  by (simp add: example_visited example_file_hash example_file_hash_gone example_getsize
      example_md5_def)

section \<open>Sorting by modification time and deleting\<close>

lemma getmtimes_ok:
  "\<forall>p \<in> set ps. getmtime fs p = Inr (t p) \<Longrightarrow> getmtimes ps fs = (Inr (map t ps), fs)"
  by (induction ps) (simp_all add: os_path_getmtime_eq)

lemma getmtime_error: "getmtime fs p = Inl e \<Longrightarrow> e = OSError"
  by (auto simp: getmtime_def os_path_getmtime_def split: option.splits if_splits)

lemma getmtimes_frame: "snd (getmtimes ps fs) = fs"
  by (induction ps) (auto simp: os_path_getmtime_eq split: sum.splits prod.splits)

lemma getmtimes_fail:
  "p \<in> set ps \<Longrightarrow> getmtime fs p = Inl e \<Longrightarrow> getmtimes ps fs = (Inl OSError, fs)"
proof (induction ps)
  case Nil
  then show ?case by simp
next
  case (Cons q qs)
  show ?case
  proof (cases "getmtime fs q")
    case (Inl e')
    then show ?thesis using getmtime_error[OF Inl] by (simp add: os_path_getmtime_eq)
  next
    case (Inr tq)
    with Cons.prems have "p \<in> set qs" by auto
    from Cons.IH[OF this Cons.prems(2)] Inr show ?thesis
      by (simp add: os_path_getmtime_eq)
  qed
qed

lemma map_snd_insort_key:
  "\<forall>z \<in> set zs. fst z = t (snd z) \<Longrightarrow>
   map snd (insort_key fst (t p, p) zs) = insort_key t p (map snd zs)"
  by (induction zs) auto

lemma set_insort_key_pairs:
  "\<forall>z \<in> set zs. fst z = t (snd z) \<Longrightarrow>
   \<forall>z \<in> set (insort_key fst (t p, p) zs). fst z = t (snd z)"
  by (auto simp: set_insort_key)

lemma sort_key_zip:
  "map snd (sort_key fst (zip (map t ps) ps)) = sort_key t ps \<and>
   (\<forall>z \<in> set (sort_key fst (zip (map t ps) ps)). fst z = t (snd z))"
proof (induction ps)
  case Nil
  show ?case by simp
next
  case (Cons p ps)
  then show ?case
    using map_snd_insort_key[of "sort_key fst (zip (map t ps) ps)" t p]
    by (auto simp: set_insort_key)
qed

lemma sort_by_mtime_ok:
  "\<forall>p \<in> set file_list. getmtime fs p = Inr (t p) \<Longrightarrow>
   sort_by_mtime file_list fs = (Inr (sort_key t file_list), fs)"
proof -
  assume a: "\<forall>p \<in> set file_list. getmtime fs p = Inr (t p)"
  show ?thesis
    unfolding sort_by_mtime_def getmtimes_ok[OF a] by (simp add: sort_key_zip)
qed

lemma sort_by_mtime_fail:
  "p \<in> set file_list \<Longrightarrow> getmtime fs p = Inl e \<Longrightarrow>
   sort_by_mtime file_list fs = (Inl OSError, fs)"
proof -
  assume a: "p \<in> set file_list" "getmtime fs p = Inl e"
  show ?thesis
    unfolding sort_by_mtime_def getmtimes_fail[OF a] by simp
qed

lemma sorted_hd_least:
  assumes "sorted (map t xs)" "xs \<noteq> []" "p \<in> set xs"
  shows "t (hd xs) \<le> t p"
  using assms by (cases xs) auto

lemma sorted_last_greatest:
  assumes "sorted (map t xs)" "xs \<noteq> []" "p \<in> set xs"
  shows "t p \<le> t (last xs)"
  using assms
proof (induction xs)
  case Nil
  then show ?case by simp
next
  case (Cons x xs)
  then show ?case by (cases "xs = []") auto
qed

lemma hd_filter_self: "xs \<noteq> [] \<Longrightarrow> P (hd xs) \<Longrightarrow> hd (filter P xs) = hd xs"
  by (cases xs) auto

lemma last_filter_self: "xs \<noteq> [] \<Longrightarrow> P (last xs) \<Longrightarrow> last (filter P xs) = last xs"
  by (induction xs) (auto simp: filter_empty_conv)

lemma hd_sort_key_stable:
  assumes "xs \<noteq> []"
  shows "hd (sort_key t xs) = hd (filter (\<lambda>p. t p = t (hd (sort_key t xs))) xs)"
proof -
  let ?s = "sort_key t xs"
  from assms have ne: "?s \<noteq> []" by (metis length_sort length_0_conv)
  have "hd (filter (\<lambda>p. t p = t (hd ?s)) ?s) = hd ?s"
    using ne by (rule hd_filter_self) simp
  then show ?thesis by (simp add: sort_key_stable)
qed

lemma last_sort_key_stable:
  assumes "xs \<noteq> []"
  shows "last (sort_key t xs) = last (filter (\<lambda>p. t p = t (last (sort_key t xs))) xs)"
proof -
  let ?s = "sort_key t xs"
  from assms have ne: "?s \<noteq> []" by (metis length_sort length_0_conv)
  have "last (filter (\<lambda>p. t p = t (last ?s)) ?s) = last ?s"
    using ne by (rule last_filter_self) simp
  then show ?thesis by (simp add: sort_key_stable)
qed

lemma files_unlink: "files (unlink p fs) = (files fs)(p := None)"
  by (simp add: unlink_def)

lemma files_unlink_all:
  "files (unlink_all ps fs) q = (if q \<in> set ps then None else files fs q)"
  unfolding unlink_all_def
  by (induction ps arbitrary: fs) (auto simp: files_unlink)

lemma removable_unlink: "removable (unlink p fs) q \<longleftrightarrow> removable fs q \<and> q \<noteq> p"
  by (auto simp: removable_def files_unlink)

lemma size_of_unlink: "q \<noteq> p \<Longrightarrow> size_of (unlink p fs) q = size_of fs q"
  by (simp add: size_of_def files_unlink)

lemma delete_step_ok:
  assumes "removable fs p"
  shows "delete_files (p # ps) (dc, rs) fs =
           delete_files ps (dc + 1, rs + size_of fs p) (unlink p fs)"
  using assms
  by (auto simp: removable_def size_of_def os_path_getsize_def os_remove_def)

lemma delete_step_fail:
  assumes "\<not> removable fs p"
  shows "delete_files (p # ps) (dc, rs) fs = delete_files ps (dc, rs) fs"
  using assms
  by (auto simp: removable_def os_path_getsize_def os_remove_def split: option.splits)

lemma delete_files_eq:
  "distinct ps \<Longrightarrow>
   delete_files ps (dc, rs) fs =
     ((dc + length (filter (removable fs) ps),
       rs + sum_list (map (size_of fs) (filter (removable fs) ps))),
      unlink_all (filter (removable fs) ps) fs)"
proof (induction ps arbitrary: dc rs fs)
  case Nil
  show ?case by (simp add: unlink_all_def)
next
  case (Cons p ps)
  from Cons.prems have d: "distinct ps" and notin: "p \<notin> set ps" by simp_all
  show ?case
  proof (cases "removable fs p")
    case True
    have f: "filter (removable (unlink p fs)) ps = filter (removable fs) ps"
      using notin by (auto simp: removable_unlink intro: filter_cong)
    have s: "map (size_of (unlink p fs)) (filter (removable fs) ps) =
             map (size_of fs) (filter (removable fs) ps)"
    proof (rule map_cong[OF refl])
      fix x assume "x \<in> set (filter (removable fs) ps)"
      with notin have "x \<noteq> p" by auto
      then show "size_of (unlink p fs) x = size_of fs x" by (rule size_of_unlink)
    qed
    show ?thesis
      using True by (simp add: delete_step_ok Cons.IH[OF d] f s unlink_all_def del: delete_files.simps)
  next
    case False
    then show ?thesis
      by (simp add: delete_step_fail Cons.IH[OF d] del: delete_files.simps)
  qed
qed

lemma getmtime_unlink_other: "q \<noteq> p \<Longrightarrow> getmtime (unlink p fs) q = getmtime fs q"
  by (simp add: getmtime_def os_path_getmtime_def files_unlink split: option.splits)

lemma delete_groups_step:
  assumes "\<forall>p \<in> set file_list. getmtime fs p = Inr (t p)"
  shows "delete_groups keep_oldest (file_list # rest) st fs =
           (case delete_files (files_to_delete keep_oldest (sort_key t file_list)) st fs of
              (st1, fs1) \<Rightarrow> delete_groups keep_oldest rest st1 fs1)"
  by (simp add: sort_by_mtime_ok[OF assms])

lemma distinct_files_to_delete:
  "distinct xs \<Longrightarrow> distinct (files_to_delete keep_oldest xs)"
  by (auto simp: files_to_delete_def distinct_butlast distinct_tl drop_Suc)

lemma set_files_to_delete: "set (files_to_delete keep_oldest xs) \<subseteq> set xs"
  by (auto simp: files_to_delete_def dest: in_set_dropD in_set_butlastD)

lemma length_files_to_delete: "length (files_to_delete keep_oldest xs) = length xs - 1"
  by (simp add: files_to_delete_def)

lemma kept_and_deleted:
  assumes "xs \<noteq> []"
  shows "mset ((if keep_oldest then hd xs else last xs) # files_to_delete keep_oldest xs) = mset xs"
proof (cases keep_oldest)
  case True
  with assms show ?thesis by (cases xs) (simp_all add: files_to_delete_def)
next
  case False
  have "mset (last xs # butlast xs) = mset (butlast xs @ [last xs])" by simp
  also have "\<dots> = mset xs" using assms(1) by (simp del: mset_append)
  finally show ?thesis using False by (simp add: files_to_delete_def)
qed

lemma getsize_unlinked:
  "p \<in> set ps \<Longrightarrow> getsize (unlink_all ps fs) p = Inl OSError"
  by (simp add: getsize_def os_path_getsize_def files_unlink_all)

lemma all_removable_filter: "\<forall>p \<in> set ps. removable fs p \<Longrightarrow> filter (removable fs) ps = ps"
  by (induction ps) auto

lemma sum_sizes_const:
  "\<forall>p \<in> set ps. size_of fs p = n \<Longrightarrow> sum_list (map (size_of fs) ps) = length ps * n"
  by (induction ps) auto

lemma example_getmtime:
  "getmtime example_fs ''/d/a'' = Inr (example_mtime ''/d/a'')"
  "getmtime example_fs ''/d/b'' = Inr (example_mtime ''/d/b'')"
  "getmtime example_fs ''/d/c'' = Inr (example_mtime ''/d/c'')"
  "getmtime example_fs ''/d/locked'' = Inr (example_mtime ''/d/locked'')"
  by (simp_all add: getmtime_def os_path_getmtime_def example_fs_def plain_file_def
      example_mtime_def)

lemma not_removable_iff:
  "\<not> removable fs p \<longleftrightarrow> (\<exists>e. getsize fs p = Inl e \<or> fst (os_remove p fs) = Inl e)"
  by (auto simp: removable_def getsize_def os_path_getsize_def os_remove_def
      split: option.splits if_splits)

lemma example_remove_locked: "fst (os_remove ''/d/locked'' example_fs) = Inl OSError"
  by (simp add: os_remove_def example_fs_def plain_file_def)

lemma example_removable:
  "removable example_fs ''/d/a''" "removable example_fs ''/d/b''"
  "\<not> removable example_fs ''/d/locked''"
  by (simp_all add: removable_def example_fs_def plain_file_def)

lemma example_size_of:
  "size_of example_fs ''/d/a'' = 2" "size_of example_fs ''/d/b'' = 2"
  by (simp_all add: size_of_def example_fs_def plain_file_def)

lemma example_sorted:
  "sort_key example_mtime [''/d/a'', ''/d/b'', ''/d/locked''] = [''/d/a'', ''/d/b'', ''/d/locked'']"
  "sort_key example_mtime [''/d/b'', ''/d/a''] = [''/d/a'', ''/d/b'']"
  "sort_key example_mtime [''/d/a'', ''/d/b''] = [''/d/a'', ''/d/b'']"
  by (simp_all add: example_mtime_def)

lemma example_bulk_with_failure:
  "delete_duplicates [(''#xx'', [''/d/a'', ''/d/b'', ''/d/locked''])] True example_fs =
     (Inr (1, 2), unlink_all [''/d/b''] example_fs)"
proof -
  have m: "\<forall>q \<in> set [''/d/a'', ''/d/b'', ''/d/locked'']. getmtime example_fs q = Inr (example_mtime q)"
    by (simp add: example_getmtime)
  have d: "distinct [''/d/b'', ''/d/locked'']" by simp
  have 1: "delete_groups True [[''/d/a'', ''/d/b'', ''/d/locked'']] (0, 0) example_fs =
      (case delete_files (files_to_delete True (sort_key example_mtime [''/d/a'', ''/d/b'', ''/d/locked''])) (0, 0) example_fs of
         (st1, fs1) \<Rightarrow> delete_groups True [] st1 fs1)"
    by (rule delete_groups_step[OF m])
  have 2: "files_to_delete True (sort_key example_mtime [''/d/a'', ''/d/b'', ''/d/locked'']) = [''/d/b'', ''/d/locked'']"
    by (simp add: example_mtime_def files_to_delete_def)
  have 3: "delete_files [''/d/b'', ''/d/locked''] (0, 0) example_fs = ((1, 2), unlink_all [''/d/b''] example_fs)"
    using delete_files_eq[OF d, of 0 0 example_fs]
    by (simp add: example_removable example_size_of del: delete_files.simps)
  show ?thesis
    unfolding delete_duplicates_def
    by (simp only: list.map snd_conv 1 2 3 prod.case delete_groups.simps(1))
qed

lemma example_bulk_without_failure:
  "delete_duplicates [(''#xx'', [''/d/a'', ''/d/b''])] True example_fs =
     (Inr (1, 2), unlink_all [''/d/b''] example_fs)"
proof -
  have m: "\<forall>q \<in> set [''/d/a'', ''/d/b'']. getmtime example_fs q = Inr (example_mtime q)"
    by (simp add: example_getmtime)
  have d: "distinct [''/d/b'']" by simp
  have 1: "delete_groups True [[''/d/a'', ''/d/b'']] (0, 0) example_fs =
      (case delete_files (files_to_delete True (sort_key example_mtime [''/d/a'', ''/d/b''])) (0, 0) example_fs of
         (st1, fs1) \<Rightarrow> delete_groups True [] st1 fs1)"
    by (rule delete_groups_step[OF m])
  have 2: "files_to_delete True (sort_key example_mtime [''/d/a'', ''/d/b'']) = [''/d/b'']"
    by (simp add: example_mtime_def files_to_delete_def)
  have 3: "delete_files [''/d/b''] (0, 0) example_fs = ((1, 2), unlink_all [''/d/b''] example_fs)"
    using delete_files_eq[OF d, of 0 0 example_fs]
    by (simp add: example_removable example_size_of del: delete_files.simps)
  show ?thesis
    unfolding delete_duplicates_def
    by (simp only: list.map snd_conv 1 2 3 prod.case delete_groups.simps(1))
qed

lemma getmtime_getsize: "getmtime fs p = Inr m \<Longrightarrow> \<exists>n. getsize fs p = Inr n"
  by (auto simp: getmtime_def getsize_def os_path_getmtime_def os_path_getsize_def
      split: option.splits if_splits)

section \<open>Path components, digest groups and interactive resolution\<close>

lemma protected_paths_reserved:
  "protected_paths = map (\<lambda>name. ''/'' @ name @ ''/'') reserved_names"
  by (simp add: protected_paths_def reserved_names_def)

lemma reserved_names_no_slash: "name \<in> set reserved_names \<Longrightarrow> CHR ''/'' \<notin> set name"
  by (auto simp: reserved_names_def)

lemma split_sep_nonempty: "split_sep c s \<noteq> []"
  by (induction s) (auto split: list.splits)

lemma split_sep_append: "split_sep c (xs @ c # ys) = split_sep c xs @ split_sep c ys"
proof (induction xs)
  case Nil
  show ?case by simp
next
  case (Cons x xs)
  obtain w ws where w: "split_sep c xs = w # ws"
    using split_sep_nonempty[of c xs] by (cases "split_sep c xs") auto
  show ?case by (simp add: Cons.IH w)
qed

lemma split_sep_no_sep: "c \<notin> set s \<Longrightarrow> split_sep c s = [s]"
  by (induction s) auto

lemma enclosed_is_component:
  assumes "c \<notin> set name"
  shows "name \<in> set (split_sep c (pre @ c # name @ c # rest))"
proof -
  have "split_sep c (pre @ c # name @ c # rest) =
          split_sep c pre @ split_sep c name @ split_sep c rest"
    by (simp only: split_sep_append)
  with assms show ?thesis by (simp add: split_sep_no_sep)
qed

lemma pattern_is_component:
  assumes "name \<in> set reserved_names" and "sublist (''/'' @ name @ ''/'') s"
  shows "name \<in> set (split_sep CHR ''/'' s)"
proof -
  from assms(2) obtain pre rest where "s = pre @ (''/'' @ name @ ''/'') @ rest"
    unfolding sublist_def by blast
  then have s: "s = pre @ CHR ''/'' # name @ CHR ''/'' # rest" by simp
  show ?thesis
    unfolding s by (rule enclosed_is_component[OF reserved_names_no_slash[OF assms(1)]])
qed

lemma no_reserved_component_unprotected:
  assumes "\<not> (length (path_lower_of abspath p) \<le> 3 \<and> CHR '':'' \<in> set (path_lower_of abspath p))"
    and "\<forall>name \<in> set reserved_names.
           name \<notin> set (split_sep CHR ''/'' (path_lower_of abspath p))"
  shows "\<not> is_protected_directory abspath p"
proof
  assume "is_protected_directory abspath p"
  with assms(1) obtain q where q: "q \<in> set protected_paths" "sublist q (path_lower_of abspath p)"
    unfolding is_protected_directory_iff by blast
  from q(1) obtain name where n: "name \<in> set reserved_names" "q = ''/'' @ name @ ''/''"
    unfolding protected_paths_reserved by auto
  from q(2) n(2) have "sublist (''/'' @ name @ ''/'') (path_lower_of abspath p)" by simp
  from pattern_is_component[OF n(1) this] have "name \<in> set (split_sep CHR ''/'' (path_lower_of abspath p))" .
  with assms(2) n(1) show False by blast
qed

lemma projects_lower:
  "path_lower_of (posix_abspath ''/home/alice'') ''Projects/demo'' = ''/home/alice/projects/demo''"
  by code_simp

lemma projects_components:
  "split_sep CHR ''/'' ''/home/alice/projects/demo'' = [[], ''home'', ''alice'', ''projects'', ''demo'']"
  by simp

lemma filter_size_digest:
  "h \<noteq> [] \<Longrightarrow>
   filter (\<lambda>p. digest_key md5 fs p = Some h) (filter (\<lambda>p. size_key fs p = Some sz) vs) =
   filter (\<lambda>p. getsize fs p = Inr sz \<and> file_hash md5 fs p = Some h) vs"
proof -
  assume h: "h \<noteq> []"
  have d: "\<And>p. digest_key md5 fs p = Some h \<longleftrightarrow> file_hash md5 fs p = Some h"
    using h by (auto simp: digest_key_def split: option.splits)
  have s: "\<And>p. size_key fs p = Some sz \<longleftrightarrow> getsize fs p = Inr sz"
    by (auto simp: size_key_def split: sum.splits)
  show ?thesis by (simp add: d s conj_commute)
qed

lemma digest_group_found:
  assumes ne: "h \<noteq> []"
    and len: "2 \<le> length (filter (\<lambda>p. getsize fs p = Inr sz \<and> file_hash md5 fs p = Some h) vs)"
    and nocoll: "\<forall>q \<in> set vs. file_hash md5 fs q = Some h \<longrightarrow> getsize fs q = Inr sz"
  shows "(h, filter (\<lambda>p. getsize fs p = Inr sz \<and> file_hash md5 fs p = Some h) vs)
           \<in> set (collect_groups md5 fs (size_buckets fs vs) [])"
proof -
  let ?B = "filter (\<lambda>p. size_key fs p = Some sz) vs"
  let ?G = "filter (\<lambda>p. digest_key md5 fs p = Some h) ?B"
  have G: "?G = filter (\<lambda>p. getsize fs p = Inr sz \<and> file_hash md5 fs p = Some h) vs"
    by (rule filter_size_digest[OF ne])
  with len have lenG: "length ?G > 1" by simp
  then have "?G \<noteq> []" by auto
  then have Bne: "?B \<noteq> []" by (auto simp: filter_empty_conv)
  have "map_of (size_buckets fs vs) sz = Some ?B"
    using Bne by (simp add: size_buckets_def map_of_group_by_empty)
  then have mem: "(sz, ?B) \<in> set (size_buckets fs vs)" by (rule map_of_SomeD)
  have other: "\<forall>(file_size', fl') \<in> set (size_buckets fs vs). file_size' \<noteq> sz \<longrightarrow>
           filter (\<lambda>p. digest_key md5 fs p = Some h) fl' = []"
  proof (clarify)
    fix sz' fl'
    assume m: "(sz', fl') \<in> set (size_buckets fs vs)" and d: "sz' \<noteq> sz"
    from size_buckets_member[OF m] have fl': "fl' = filter (\<lambda>p. size_key fs p = Some sz') vs"
      by simp
    show "filter (\<lambda>p. digest_key md5 fs p = Some h) fl' = []"
    proof (rule ccontr)
      assume "filter (\<lambda>p. digest_key md5 fs p = Some h) fl' \<noteq> []"
      then obtain q where q: "q \<in> set fl'" "digest_key md5 fs q = Some h"
        by (auto simp: filter_empty_conv)
      from q(1) fl' have qv: "q \<in> set vs" and qs: "size_key fs q = Some sz'" by auto
      from digest_key_Some[OF q(2)] have "file_hash md5 fs q = Some h" by simp
      with nocoll qv have "getsize fs q = Inr sz" by blast
      then have "size_key fs q = Some sz" by (simp add: size_key_def)
      with qs d show False by simp
    qed
  qed
  have "map_of (collect_groups md5 fs (size_buckets fs vs) []) h = Some ?G"
    by (rule map_of_collect_groups[OF distinct_size_buckets mem lenG other])
  then have "(h, ?G) \<in> set (collect_groups md5 fs (size_buckets fs vs) [])"
    by (rule map_of_SomeD)
  then show ?thesis by (simp only: G)
qed

lemma find_duplicates_groups:
  assumes "(h, g) \<in> set (collect_groups md5 fs (size_buckets fs vs) [])"
  shows "2 \<le> length g \<and>
         (\<exists>sz. g = filter (\<lambda>p. getsize fs p = Inr sz \<and> file_hash md5 fs p = Some h) vs)"
proof -
  from collect_groups_member[OF assms]
  obtain file_size fl where
    m: "(file_size, fl) \<in> set (size_buckets fs vs)"
    and g: "g = filter (\<lambda>p. digest_key md5 fs p = Some h) fl" and len: "length g > 1"
    by auto
  from size_buckets_member[OF m] have fl: "fl = filter (\<lambda>p. size_key fs p = Some file_size) vs"
    by simp
  from len have "g \<noteq> []" by auto
  with g obtain p where "digest_key md5 fs p = Some h" by (auto simp: filter_empty_conv)
  then have ne: "h \<noteq> []" using digest_key_Some by blast
  have "g = filter (\<lambda>p. getsize fs p = Inr file_size \<and> file_hash md5 fs p = Some h) vs"
    unfolding g fl by (rule filter_size_digest[OF ne])
  with len show ?thesis by auto
qed

lemma list_group_ok:
  "\<forall>p \<in> set fl. getmtime fs p = Inr (t p) \<and> fromtimestamp (t p) = Inr (d p) \<Longrightarrow>
   \<exists>lines. list_group fromtimestamp i fl (inp, out) fs = (Inr (inp, out @ lines), fs) \<and>
           length lines = length fl"
proof (induction fl arbitrary: i out)
  case Nil
  show ?case by simp
next
  case (Cons p ps)
  from Cons.prems have ps: "\<forall>p \<in> set ps. getmtime fs p = Inr (t p) \<and> fromtimestamp (t p) = Inr (d p)"
    by simp
  from Cons.IH[OF ps, of "Suc i" "out @ [FileLine i p (d p)]"]
  obtain lines where l: "list_group fromtimestamp (Suc i) ps (inp, out @ [FileLine i p (d p)]) fs =
      (Inr (inp, (out @ [FileLine i p (d p)]) @ lines), fs)" "length lines = length ps"
    by blast
  have "list_group fromtimestamp i (p # ps) (inp, out) fs =
          (Inr (inp, out @ (FileLine i p (d p) # lines)), fs)"
    using Cons.prems l(1) by (simp add: os_path_getmtime_eq print_def)
  with l(2) show ?case by (intro exI[of _ "FileLine i p (d p) # lines"]) simp
qed

lemma list_group_fail:
  "\<forall>p \<in> set fl. getmtime fs p = Inr (t p) \<Longrightarrow>
   \<exists>p \<in> set fl. \<exists>e. fromtimestamp (t p) = Inl e \<Longrightarrow>
   \<exists>e. list_group fromtimestamp i fl tm fs = (Inl e, fs)"
proof (induction fl arbitrary: i tm)
  case Nil
  then show ?case by simp
next
  case (Cons p ps)
  from Cons.prems(1) have here: "getmtime fs p = Inr (t p)"
    and ps: "\<forall>p \<in> set ps. getmtime fs p = Inr (t p)" by simp_all
  show ?case
  proof (cases "fromtimestamp (t p)")
    case (Inl e)
    then show ?thesis by (simp add: os_path_getmtime_eq here)
  next
    case (Inr s)
    with Cons.prems(2) have "\<exists>p \<in> set ps. \<exists>e. fromtimestamp (t p) = Inl e" by auto
    from Cons.IH[OF ps this] Inr show ?thesis
      by (simp add: os_path_getmtime_eq here)
  qed
qed

lemma delete_files_reporting_eq:
  "\<exists>report. length report = length ps \<and>
     (\<forall>st inp out. delete_files_reporting ps st (inp, out) fs =
        ((fst (delete_files ps st fs), (inp, out @ report)), snd (delete_files ps st fs)))"
proof (induction ps arbitrary: fs)
  case Nil
  show ?case by simp
next
  case (Cons p ps)
  show ?case
  proof (cases "removable fs p")
    case True
    from Cons.IH[of "unlink p fs"] obtain report where r: "length report = length ps"
      "\<And>st inp out. delete_files_reporting ps st (inp, out) (unlink p fs) =
        ((fst (delete_files ps st (unlink p fs)), (inp, out @ report)),
         snd (delete_files ps st (unlink p fs)))" by blast
    have "\<forall>st inp out. delete_files_reporting (p # ps) st (inp, out) fs =
        ((fst (delete_files (p # ps) st fs), (inp, out @ (Deleted p # report))),
         snd (delete_files (p # ps) st fs))"
    proof (intro allI)
      fix st :: "nat \<times> nat" and inp out
      obtain dc rs where st: "st = (dc, rs)" by (cases st)
      have "delete_files_reporting (p # ps) (dc, rs) (inp, out) fs =
            delete_files_reporting ps (dc + 1, rs + size_of fs p) (inp, out @ [Deleted p]) (unlink p fs)"
        using True by (auto simp: removable_def size_of_def os_path_getsize_def os_remove_def print_def)
      then show "delete_files_reporting (p # ps) st (inp, out) fs =
        ((fst (delete_files (p # ps) st fs), (inp, out @ (Deleted p # report))),
         snd (delete_files (p # ps) st fs))"
        by (simp add: st r(2) delete_step_ok[OF True] del: delete_files.simps delete_files_reporting.simps)
    qed
    with r(1) show ?thesis by (intro exI[of _ "Deleted p # report"]) simp
  next
    case False
    from Cons.IH[of fs] obtain report where r: "length report = length ps"
      "\<And>st inp out. delete_files_reporting ps st (inp, out) fs =
        ((fst (delete_files ps st fs), (inp, out @ report)), snd (delete_files ps st fs))"
      by blast
    have "\<forall>st inp out. delete_files_reporting (p # ps) st (inp, out) fs =
        ((fst (delete_files (p # ps) st fs), (inp, out @ (FailedToDelete p # report))),
         snd (delete_files (p # ps) st fs))"
    proof (intro allI)
      fix st :: "nat \<times> nat" and inp out
      obtain dc rs where st: "st = (dc, rs)" by (cases st)
      have "delete_files_reporting (p # ps) (dc, rs) (inp, out) fs =
            delete_files_reporting ps (dc, rs) (inp, out @ [FailedToDelete p]) fs"
        using False
        by (auto simp: removable_def os_path_getsize_def os_remove_def print_def
            split: option.splits)
      then show "delete_files_reporting (p # ps) st (inp, out) fs =
        ((fst (delete_files (p # ps) st fs), (inp, out @ (FailedToDelete p # report))),
         snd (delete_files (p # ps) st fs))"
        by (simp add: st r(2) delete_step_fail[OF False] del: delete_files.simps delete_files_reporting.simps)
    qed
    with r(1) show ?thesis by (intro exI[of _ "FailedToDelete p # report"]) simp
  qed
qed

lemma interactive_group_eq:
  assumes ne: "file_list \<noteq> []" and mt: "\<forall>p \<in> set file_list. getmtime fs p = Inr (t p)"
    and dt: "\<forall>p \<in> set file_list. fromtimestamp (t p) = Inr (d p)"
  shows "\<exists>out1 report.
           last out1 = Keeping (if keep_oldest then hd (sort_key t file_list)
                                else last (sort_key t file_list)) \<and>
           length report = length (files_to_delete keep_oldest (sort_key t file_list)) \<and>
           (\<forall>st. interactive_group fromtimestamp keep_oldest file_list st (answer # pending, out) fs =
             (if lower (strip answer) = ''y'' then
                (Inr (fst (delete_files (files_to_delete keep_oldest (sort_key t file_list)) st fs),
                      (pending, out1 @ report)),
                 snd (delete_files (files_to_delete keep_oldest (sort_key t file_list)) st fs))
              else (Inr (st, (pending, out1)), fs)))"
proof -
  let ?s = "sort_key t file_list"
  let ?kept = "if keep_oldest then hd ?s else last ?s"
  let ?D = "files_to_delete keep_oldest ?s"
  from ne have sne: "?s \<noteq> []" by (metis length_sort length_0_conv)
  then have "hd ?s \<in> set file_list" by (metis hd_in_set set_sort)
  with mt getmtime_getsize obtain n where n: "getsize fs (hd ?s) = Inr n" by blast
  have mts: "\<forall>p \<in> set ?s. getmtime fs p = Inr (t p) \<and> fromtimestamp (t p) = Inr (d p)"
    using mt dt by simp
  from list_group_ok[OF mts, of 1 "answer # pending" "out @ [GroupHeader (length ?s) n]"]
  obtain lines where l: "list_group fromtimestamp 1 ?s
         (answer # pending, out @ [GroupHeader (length ?s) n]) fs =
       (Inr (answer # pending, (out @ [GroupHeader (length ?s) n]) @ lines), fs)"
    by blast
  let ?out1 = "(out @ [GroupHeader (length ?s) n]) @ lines @ [Keeping ?kept]"
  from delete_files_reporting_eq[of ?D fs] obtain report where r: "length report = length ?D"
    "\<And>st inp out. delete_files_reporting ?D st (inp, out) fs =
        ((fst (delete_files ?D st fs), (inp, out @ report)), snd (delete_files ?D st fs))"
    by blast
  have step: "\<And>st. interactive_group fromtimestamp keep_oldest file_list st (answer # pending, out) fs =
           (if lower (strip answer) = ''y'' then
              (case delete_files_reporting ?D st (pending, ?out1) fs of
                 (r, fs1) \<Rightarrow> (Inr r, fs1))
            else (Inr (st, (pending, ?out1)), fs))"
    unfolding interactive_group_def sort_by_mtime_ok[OF mt]
    using sne l by (simp add: os_path_getsize_eq n print_def input_def Let_def)
  have "\<forall>st. interactive_group fromtimestamp keep_oldest file_list st (answer # pending, out) fs =
           (if lower (strip answer) = ''y'' then
              (Inr (fst (delete_files ?D st fs), (pending, ?out1 @ report)),
               snd (delete_files ?D st fs))
            else (Inr (st, (pending, ?out1)), fs))"
    by (simp only: step r(2) prod.case) simp
  moreover have "last ?out1 = Keeping ?kept" by simp
  ultimately show ?thesis using r(1) by blast
qed

lemma interactive_group_bad_date:
  assumes ne: "file_list \<noteq> []" and mt: "\<forall>p \<in> set file_list. getmtime fs p = Inr (t p)"
    and bad: "\<exists>p \<in> set file_list. \<exists>e. fromtimestamp (t p) = Inl e"
  shows "\<exists>e. interactive_group fromtimestamp keep_oldest file_list st tm fs = (Inl e, fs)"
proof -
  let ?s = "sort_key t file_list"
  from ne have sne: "?s \<noteq> []" by (metis length_sort length_0_conv)
  then have "hd ?s \<in> set file_list" by (metis hd_in_set set_sort)
  with mt getmtime_getsize obtain n where n: "getsize fs (hd ?s) = Inr n" by blast
  have mts: "\<forall>p \<in> set ?s. getmtime fs p = Inr (t p)" using mt by simp
  have bads: "\<exists>p \<in> set ?s. \<exists>e. fromtimestamp (t p) = Inl e" using bad by simp
  from list_group_fail[OF mts bads, of 1 "print (GroupHeader (length ?s) n) tm"]
  obtain e where "list_group fromtimestamp 1 ?s (print (GroupHeader (length ?s) n) tm) fs = (Inl e, fs)"
    by blast
  then show ?thesis
    unfolding interactive_group_def sort_by_mtime_ok[OF mt]
    using sne by (simp add: os_path_getsize_eq n Let_def)
qed

lemma delete_interactive_Cons:
  "delete_interactive fromtimestamp ((h, file_list) # more_groups) keep_oldest tm fs =
     (case interactive_group fromtimestamp keep_oldest file_list (0, 0) tm fs of
        (Inl e, fs1) \<Rightarrow> (Inl e, fs1)
      | (Inr (st1, tm1), fs1) \<Rightarrow>
          interactive_groups fromtimestamp keep_oldest (map snd more_groups) st1 tm1 fs1)"
  by (simp add: delete_interactive_def)

lemma answer_y: "lower (strip ''y'') = ''y''" "lower (strip '' Y '') = ''y''"
  by code_simp+

lemma example_dates:
  "example_fromtimestamp (example_mtime ''/d/a'') = Inr ''date''"
  "example_fromtimestamp (example_mtime ''/d/b'') = Inr ''date''"
  by (simp_all add: example_fromtimestamp_def example_mtime_def)

lemma example_delete_b:
  "delete_files [''/d/b''] (0, 0) example_fs = ((1, 2), unlink_all [''/d/b''] example_fs)"
proof -
  have d: "distinct [''/d/b'']" by simp
  show ?thesis
    using delete_files_eq[OF d, of 0 0 example_fs]
    by (simp add: example_removable example_size_of del: delete_files.simps)
qed

section \<open>Claims about the path guard\<close>

text \<open>
  Claim C9, as the code has it. The guard of the duplicate engine has no rule for the
  \<^verbatim>\<open>users\<close> directory: when the normalized path is \<^verbatim>\<open>/users\<close> or \<^verbatim>\<open>/users/name\<close>, directly
  under the root or under a drive letter, the guard returns false, for the directory itself
  as for its immediate subdirectories.
\<close>

theorem C9_users_not_guarded:
  assumes "pre = [] \<or> pre = [d, CHR '':'']" and "CHR ''/'' \<notin> set name"
  shows "(path_lower_of abspath p = pre @ ''/users'' \<longrightarrow> \<not> is_protected_directory abspath p) \<and>
         (path_lower_of abspath p' = pre @ ''/users/'' @ name
            \<longrightarrow> \<not> is_protected_directory abspath p')"
proof (intro conjI impI)
  assume pl: "path_lower_of abspath p = pre @ ''/users''"
  have "\<forall>q \<in> set protected_paths. \<not> sublist q (pre @ ''/users'')"
    using assms(1) users_no_pattern drive_no_pattern[of _ "''/users''" d] by auto
  moreover have "length (pre @ ''/users'') > 3" by simp
  ultimately show "\<not> is_protected_directory abspath p"
    unfolding is_protected_directory_iff pl by auto
next
  assume pl: "path_lower_of abspath p' = pre @ ''/users/'' @ name"
  have "\<forall>q \<in> set protected_paths. \<not> sublist q (pre @ ''/users/'' @ name)"
    using assms(1) users_sub_no_pattern[OF assms(2)]
      drive_no_pattern[of _ "''/users/'' @ name" d] by auto
  moreover have "length (pre @ ''/users/'' @ name) > 3" by simp
  ultimately show "\<not> is_protected_directory abspath p'"
    unfolding is_protected_directory_iff pl by auto
qed

text \<open>The theorem at \<^verbatim>\<open>/Users/bob\<close> and at \<^verbatim>\<open>C:\Users\<close>.\<close>

theorem C9_users_not_guarded_witness:
  "\<not> is_protected_directory (posix_abspath ''/home/alice'') ''/Users/bob'' \<and>
   \<not> is_protected_directory (\<lambda>p. p) [CHR ''C'', CHR '':'', CHR 0x5C, CHR ''U'', CHR ''s'', CHR ''e'', CHR ''r'', CHR ''s'']"
  using C9_users_not_guarded[of "[]" "CHR ''c''" "''bob''" "posix_abspath ''/home/alice''" "''/Users''" "''/Users/bob''"]
    C9_users_not_guarded[of "''c:''" "CHR ''c''" "''bob''" "\<lambda>p. p" "[CHR ''C'', CHR '':'', CHR 0x5C, CHR ''U'', CHR ''s'', CHR ''e'', CHR ''r'', CHR ''s'']" "''/Users/bob''"]
  by (simp add: users_lower users_bob_lower win_users_lower)

text \<open>The claim as the specification states it fails: the \<^verbatim>\<open>users\<close> directory itself is not
  classified as protected.\<close>

theorem C9_counterexample:
  "\<not> is_protected_directory (posix_abspath ''/home/alice'') ''/Users'' \<and>
   \<not> is_protected_directory (\<lambda>p. p) [CHR ''C'', CHR '':'', CHR 0x5C, CHR ''U'', CHR ''s'', CHR ''e'', CHR ''r'', CHR ''s'']"
  unfolding is_protected_directory_iff users_lower win_users_lower
  by (simp add: protected_paths_def sublist_Cons_right)

section \<open>Claims about scanning and grouping\<close>

text \<open>
  Claim C10. Scanning, hashing and grouping leave the filesystem as it was:
  \<^verbatim>\<open>find_duplicates\<close>, \<^verbatim>\<open>calculate_file_hash\<close> and the two phases of the scan return the state
  they were given, so every file is present and has the same bytes afterwards. Only
  \<open>os_remove\<close>, which the two resolution operations call, changes the state.
\<close>

theorem C10_scanning_is_read_only:
  "snd (find_duplicates md5 directory include_subfolders fs) = fs \<and>
   snd (calculate_file_hash md5 filepath buffer_size fs) = fs \<and>
   snd (scan_sizes directory include_subfolders fs) = fs \<and>
   snd (hash_buckets md5 files_by_size (duplicates, hashed_files) fs) = fs"
  by (simp add: find_duplicates_eq calculate_file_hash_frame scan_sizes_eq hash_buckets_eq)

text \<open>
  Claim C8. When the directory can be listed, the size scan returns (it does not raise) with
  the processed counter equal to the number of files visited, files whose size query failed
  included; such a file is in no size bucket, and its step of the loop only advances the
  counter. When no file is visited there are no buckets, nothing to hash, and
  \<^verbatim>\<open>find_duplicates\<close> returns no group.
\<close>

theorem C8_scan_survives_file_errors:
  assumes "\<not> listing_fails fs directory include_subfolders"
  shows "\<exists>files_by_size.
           scan_sizes directory include_subfolders fs =
             (Inr (files_by_size, length (visited fs directory include_subfolders)), fs) \<and>
           (\<forall>p e. getsize fs p = Inl e \<longrightarrow>
              (\<forall>(file_size, fl) \<in> set files_by_size. p \<notin> set fl) \<and>
              (\<forall>st n. scan_file p (st, n) fs = ((st, n + 1), fs))) \<and>
           (visited fs directory include_subfolders = [] \<longrightarrow>
              files_by_size = [] \<and> files_to_hash files_by_size = 0 \<and>
              find_duplicates md5 directory include_subfolders fs = (Inr [], fs))"
proof (intro exI conjI allI impI)
  show "scan_sizes directory include_subfolders fs =
          (Inr (size_buckets fs (visited fs directory include_subfolders),
                length (visited fs directory include_subfolders)), fs)"
    using assms by (simp add: scan_sizes_eq scan_paths_start)
next
  fix p e
  assume "getsize fs p = Inl e"
  then show "\<forall>(file_size, fl) \<in> set (size_buckets fs (visited fs directory include_subfolders)).
               p \<notin> set fl"
    using size_buckets_skip by blast
next
  fix p e st n
  assume "getsize fs p = Inl e"
  then show "scan_file p (st, n) fs = ((st, n + 1), fs)"
    by (rule scan_file_failing)
next
  assume e: "visited fs directory include_subfolders = []"
  then show "size_buckets fs (visited fs directory include_subfolders) = []"
    by (simp add: size_buckets_def)
  from e show "files_to_hash (size_buckets fs (visited fs directory include_subfolders)) = 0"
    by (simp add: size_buckets_def)
  from e assms show "find_duplicates md5 directory include_subfolders fs = (Inr [], fs)"
    by (simp add: find_duplicates_eq size_buckets_def)
qed

text \<open>The theorem on the example directory, where \<^verbatim>\<open>gone\<close> is listed but cannot be
  queried, and on an empty directory.\<close>

theorem C8_scan_survives_file_errors_witness:
  "\<not> listing_fails example_fs ''/d'' True \<and> getsize example_fs ''/d/gone'' = Inl OSError \<and>
   scan_sizes ''/d'' True example_fs =
     (Inr ([(2, [''/d/a'', ''/d/b'', ''/d/c'', ''/d/locked''])], 5), example_fs) \<and>
   \<not> listing_fails example_fs ''/empty'' False \<and>
   scan_sizes ''/empty'' False example_fs = (Inr ([], 0), example_fs) \<and>
   find_duplicates example_md5 ''/empty'' False example_fs = (Inr [], example_fs)"
proof -
  have l1: "\<not> listing_fails example_fs ''/d'' True"
    by (simp add: listing_fails_def)
  have l2: "\<not> listing_fails example_fs ''/empty'' False"
    by (simp add: listing_fails_def example_fs_def)
  from C8_scan_survives_file_errors[OF l1, of example_md5]
  obtain b where b: "scan_sizes ''/d'' True example_fs =
      (Inr (b, length (visited example_fs ''/d'' True)), example_fs)"
    by blast
  have b': "scan_sizes ''/d'' True example_fs =
      (Inr ([(2, [''/d/a'', ''/d/b'', ''/d/c'', ''/d/locked''])], 5), example_fs)"
    using b l1 by (simp add: scan_sizes_eq scan_paths_start example_buckets example_visited)
  from C8_scan_survives_file_errors[OF l2, of example_md5]
  have "scan_sizes ''/empty'' False example_fs = (Inr ([], 0), example_fs) \<and>
        find_duplicates example_md5 ''/empty'' False example_fs = (Inr [], example_fs)"
    by (auto simp: example_visited_empty)
  with l1 l2 b' example_getsize_gone show ?thesis by simp
qed

text \<open>
  Claim C4. Every group that \<^verbatim>\<open>find_duplicates\<close> returns has at least two members, all of
  its members have the digest the group is stored under, and all have the same size. A
  digest with one file in its bucket is not stored as a group, a bucket with one member is
  skipped by the hashing loop, and the number of files hashed is the total size of the
  buckets with two or more members.
\<close>

theorem C4_groups_are_duplicates:
  assumes "find_duplicates md5 directory include_subfolders fs = (Inr duplicates, fs')"
    and "(h, g) \<in> set duplicates"
  shows "2 \<le> length g \<and>
         (\<forall>p \<in> set g. file_hash md5 fs p = Some h) \<and>
         (\<exists>file_size. \<forall>p \<in> set g. getsize fs p = Inr file_size) \<and>
         (\<forall>k p hashes dups. store_groups ((k, [p]) # hashes) dups = store_groups hashes dups) \<and>
         (\<forall>file_size p files_by_size st.
            hash_buckets md5 ((file_size, [p]) # files_by_size) st fs =
            hash_buckets md5 files_by_size st fs) \<and>
         (\<forall>files_by_size dups.
            snd (fst (hash_buckets md5 files_by_size (dups, 0) fs)) = files_to_hash files_by_size)"
proof -
  from find_duplicates_member[OF assms] obtain file_size where
    g: "g = filter (\<lambda>p. digest_key md5 fs p = Some h)
              (filter (\<lambda>p. size_key fs p = Some file_size)
                 (visited fs directory include_subfolders))"
    and len: "length g > 1" by blast
  have "\<forall>p \<in> set g. file_hash md5 fs p = Some h"
    using g digest_key_Some by auto
  moreover have "\<forall>p \<in> set g. getsize fs p = Inr file_size"
    using g size_key_Some by auto
  moreover have "\<forall>file_size p files_by_size st.
            hash_buckets md5 ((file_size, [p]) # files_by_size) st fs =
            hash_buckets md5 files_by_size st fs"
    by (auto simp: split_paired_all)
  ultimately show ?thesis using len by (auto simp: hashed_count)
qed

text \<open>The theorem on the example directory.\<close>

theorem C4_groups_are_duplicates_witness:
  "find_duplicates example_md5 ''/d'' True example_fs =
     (Inr [(''#xx'', [''/d/a'', ''/d/b''])], example_fs) \<and>
   file_hash example_md5 example_fs ''/d/a'' = Some ''#xx'' \<and>
   file_hash example_md5 example_fs ''/d/b'' = Some ''#xx''"
  using C4_groups_are_duplicates[OF example_find_duplicates, of "''#xx''" "[''/d/a'', ''/d/b'']"]
    example_find_duplicates
  by simp

text \<open>
  Claim C6. Take files with the same content among those the scan visits, at least two of
  them, all of which can be queried and read. Digest equality is taken as identity: no
  visited file of another size has their digest (and the digest is not the empty string).
  Then \<^verbatim>\<open>find_duplicates\<close> returns, and exactly one of its groups contains all of them; a
  second scan, on the state the first one left, returns the same groups; and no group holds
  two files of different sizes.
\<close>

theorem C6_identical_files_share_one_group:
  assumes listed: "\<not> listing_fails fs directory include_subfolders"
    and S: "S \<subseteq> set (visited fs directory include_subfolders)"
    and same: "\<forall>p \<in> S. \<exists>f. files fs p = Some f \<and> content f = c \<and> stat_ok f \<and> open_ok f \<and>
                         read_limit f = None"
    and two: "p1 \<in> S" "p2 \<in> S" "p1 \<noteq> p2"
    and ne: "md5 c \<noteq> []"
    and nocoll: "\<forall>q \<in> set (visited fs directory include_subfolders).
                   file_hash md5 fs q = Some (md5 c) \<longrightarrow> getsize fs q = Inr (length c)"
  shows "\<exists>duplicates.
           find_duplicates md5 directory include_subfolders fs = (Inr duplicates, fs) \<and>
           (\<exists>!e. e \<in> set duplicates \<and> S \<subseteq> set (snd e)) \<and>
           find_duplicates md5 directory include_subfolders
               (snd (find_duplicates md5 directory include_subfolders fs)) =
             (Inr duplicates, fs) \<and>
           (\<forall>e \<in> set duplicates. \<forall>p \<in> set (snd e). \<forall>q \<in> set (snd e).
               getsize fs p = getsize fs q)"
proof -
  let ?vs = "visited fs directory include_subfolders"
  let ?D = "collect_groups md5 fs (size_buckets fs ?vs) []"
  let ?G = "filter (\<lambda>p. digest_key md5 fs p = Some (md5 c))
                  (filter (\<lambda>p. size_key fs p = Some (length c)) ?vs)"
  have fd: "find_duplicates md5 directory include_subfolders fs = (Inr ?D, fs)"
    using listed by (simp add: find_duplicates_eq)
  from identical_files_group[OF S same two ne nocoll]
  have mo: "map_of ?D (md5 c) = Some ?G" and SG: "S \<subseteq> set ?G" by simp_all
  have dist: "distinct (map fst ?D)" by (rule distinct_collect_groups) simp
  from mo have mem: "(md5 c, ?G) \<in> set ?D" by (rule map_of_SomeD)
  have uniq: "\<exists>!e. e \<in> set ?D \<and> S \<subseteq> set (snd e)"
  proof (rule ex1I[of _ "(md5 c, ?G)"])
    show "(md5 c, ?G) \<in> set ?D \<and> S \<subseteq> set (snd (md5 c, ?G))" using mem SG by simp
  next
    fix e assume e: "e \<in> set ?D \<and> S \<subseteq> set (snd e)"
    obtain h g where hg: "e = (h, g)" by (cases e)
    from e hg have in_D: "(h, g) \<in> set ?D" and Sg: "S \<subseteq> set g" by simp_all
    from find_duplicates_member[OF fd in_D] obtain file_size where
      g: "g = filter (\<lambda>p. digest_key md5 fs p = Some h)
              (filter (\<lambda>p. size_key fs p = Some file_size) ?vs)" by blast
    from two(1) Sg g have "digest_key md5 fs p1 = Some h" by auto
    moreover from two(1) SG have "digest_key md5 fs p1 = Some (md5 c)" by auto
    ultimately have h: "h = md5 c" by simp
    from dist in_D have "map_of ?D h = Some g" by simp
    with mo h have "g = ?G" by simp
    with h hg show "e = (md5 c, ?G)" by simp
  qed
  have sizes: "\<forall>e \<in> set ?D. \<forall>p \<in> set (snd e). \<forall>q \<in> set (snd e). getsize fs p = getsize fs q"
    using find_duplicates_same_size[OF fd] by blast
  have idem: "find_duplicates md5 directory include_subfolders
               (snd (find_duplicates md5 directory include_subfolders fs)) = (Inr ?D, fs)"
    by (simp only: fd snd_conv)
  show ?thesis
    by (rule exI[of _ ?D], intro conjI) (rule fd, rule uniq, rule idem, rule sizes)
qed

text \<open>The theorem on the example directory, for the files \<^verbatim>\<open>a\<close> and \<^verbatim>\<open>b\<close>.\<close>

theorem C6_identical_files_share_one_group_witness:
  "{''/d/a'', ''/d/b''} \<subseteq> set (visited example_fs ''/d'' True) \<and>
   (\<exists>duplicates.
      find_duplicates example_md5 ''/d'' True example_fs = (Inr duplicates, example_fs) \<and>
      (\<exists>!e. e \<in> set duplicates \<and> {''/d/a'', ''/d/b''} \<subseteq> set (snd e)))"
proof -
  have l: "\<not> listing_fails example_fs ''/d'' True" by (simp add: listing_fails_def)
  have S: "{''/d/a'', ''/d/b''} \<subseteq> set (visited example_fs ''/d'' True)"
    by (simp add: example_visited)
  have ne: "example_md5 ''xx'' \<noteq> []" by (simp add: example_md5_def)
  from C6_identical_files_share_one_group[OF l S example_contents _ _ _ ne example_no_collision,
      of "''/d/a''" "''/d/b''"]
  have "\<exists>duplicates.
      find_duplicates example_md5 ''/d'' True example_fs = (Inr duplicates, example_fs) \<and>
      (\<exists>!e. e \<in> set duplicates \<and> {''/d/a'', ''/d/b''} \<subseteq> set (snd e))"
    by (simp del: find_duplicates_eq) blast
  with S show ?thesis by blast
qed

section \<open>Claims about resolution\<close>

text \<open>
  Claim C2. Take a group of \<open>N \<ge> 1\<close> distinct files with the same content, each of which
  can be queried and removed. Processing the group in the loop of \<^verbatim>\<open>delete_duplicates\<close> adds
  \<open>N - 1\<close> to the deleted count and \<open>(N - 1) * fileSize\<close> to the reclaimed bytes, whatever the
  counters were and whichever groups follow; all members except the retained one are gone
  afterwards, the retained one is untouched. The sizes are those read before the removal:
  afterwards the size query of a deleted file fails.
\<close>

theorem C2_bulk_resolution_counts:
  assumes ne: "file_list \<noteq> []" and dist: "distinct file_list"
    and all: "\<forall>p \<in> set file_list. \<exists>f. files fs p = Some f \<and> content f = c \<and> stat_ok f \<and>
                                  remove_ok f"
  shows "\<exists>kept deleted.
           mset (kept # deleted) = mset file_list \<and>
           length deleted = length file_list - 1 \<and>
           delete_groups keep_oldest (file_list # rest) (deleted_count, reclaimed_space) fs =
             delete_groups keep_oldest rest
               (deleted_count + (length file_list - 1),
                reclaimed_space + (length file_list - 1) * length c)
               (unlink_all deleted fs) \<and>
           delete_duplicates [(h, file_list)] keep_oldest fs =
             (Inr (length file_list - 1, (length file_list - 1) * length c),
              unlink_all deleted fs) \<and>
           files (unlink_all deleted fs) kept = files fs kept \<and>
           (\<forall>p \<in> set deleted. files (unlink_all deleted fs) p = None \<and>
                               getsize fs p = Inr (length c) \<and>
                               getsize (unlink_all deleted fs) p = Inl OSError)"
proof -
  define t where "t p = (case files fs p of Some f \<Rightarrow> mtime f | None \<Rightarrow> 0)" for p
  let ?s = "sort_key t file_list"
  let ?D = "files_to_delete keep_oldest ?s"
  let ?kept = "if keep_oldest then hd ?s else last ?s"
  have mt: "\<forall>p \<in> set file_list. getmtime fs p = Inr (t p)"
    using all by (auto simp: getmtime_def os_path_getmtime_def t_def)
  from ne have sne: "?s \<noteq> []" by (metis length_sort length_0_conv)
  have ms: "mset (?kept # ?D) = mset file_list"
    using kept_and_deleted[OF sne, of keep_oldest] by (simp only: mset_sort)
  have len: "length ?D = length file_list - 1"
    by (simp add: length_files_to_delete)
  have sub: "set ?D \<subseteq> set file_list"
    using set_files_to_delete[of keep_oldest ?s] by simp
  have dD: "distinct ?D"
    using dist by (intro distinct_files_to_delete) simp
  have rem: "\<forall>p \<in> set ?D. removable fs p"
    using all sub by (fastforce simp: removable_def)
  have sz: "\<forall>p \<in> set ?D. size_of fs p = length c"
    using all sub by (fastforce simp: size_of_def)
  have gs: "\<forall>p \<in> set ?D. getsize fs p = Inr (length c)"
    using all sub by (fastforce simp: getsize_def os_path_getsize_def)
  have df: "\<And>dc rs. delete_files ?D (dc, rs) fs =
        ((dc + (length file_list - 1), rs + (length file_list - 1) * length c),
         unlink_all ?D fs)"
    by (simp add: delete_files_eq[OF dD] all_removable_filter[OF rem] sum_sizes_const[OF sz] len)
  have step: "delete_groups keep_oldest (file_list # rest) (deleted_count, reclaimed_space) fs =
             delete_groups keep_oldest rest
               (deleted_count + (length file_list - 1),
                reclaimed_space + (length file_list - 1) * length c)
               (unlink_all ?D fs)"
    by (simp only: delete_groups_step[OF mt] df prod.case)
  have whole: "delete_duplicates [(h, file_list)] keep_oldest fs =
             (Inr (length file_list - 1, (length file_list - 1) * length c), unlink_all ?D fs)"
    unfolding delete_duplicates_def
    using delete_groups_step[OF mt, of keep_oldest "[]" "(0, 0)"] df[of 0 0]
    by simp
  have "distinct (?kept # ?D)"
    using ms dist by (metis mset_eq_imp_distinct_iff)
  then have "?kept \<notin> set ?D" by simp
  then have kept: "files (unlink_all ?D fs) ?kept = files fs ?kept"
    by (simp add: files_unlink_all)
  have gone: "\<forall>p \<in> set ?D. files (unlink_all ?D fs) p = None \<and>
                               getsize fs p = Inr (length c) \<and>
                               getsize (unlink_all ?D fs) p = Inl OSError"
    using gs by (simp add: files_unlink_all getsize_unlinked)
  show ?thesis
    by (rule exI[of _ ?kept], rule exI[of _ ?D], intro conjI)
       (rule ms, rule len, rule step, rule whole, rule kept, rule gone)
qed

text \<open>The theorem on the files \<^verbatim>\<open>b\<close> and \<^verbatim>\<open>a\<close> of the example directory.\<close>

theorem C2_bulk_resolution_counts_witness:
  "(\<exists>f. files example_fs ''/d/b'' = Some f \<and> content f = ''xx'' \<and> stat_ok f \<and> remove_ok f) \<and>
   (\<exists>f. files example_fs ''/d/a'' = Some f \<and> content f = ''xx'' \<and> stat_ok f \<and> remove_ok f) \<and>
   fst (delete_duplicates [(''#xx'', [''/d/b'', ''/d/a''])] True example_fs) = Inr (1, 2)"
proof -
  have all: "\<forall>p \<in> set [''/d/b'', ''/d/a''].
      \<exists>f. files example_fs p = Some f \<and> content f = ''xx'' \<and> stat_ok f \<and> remove_ok f"
    by (simp add: example_fs_def plain_file_def)
  have ne: "[''/d/b'', ''/d/a''] \<noteq> []" and d: "distinct [''/d/b'', ''/d/a'']" by simp_all
  from C2_bulk_resolution_counts[OF ne d all, of True "[]" 0 0 "''#xx''"]
  obtain deleted where
    "delete_duplicates [(''#xx'', [''/d/b'', ''/d/a''])] True example_fs =
       (Inr (length [''/d/b'', ''/d/a''] - 1, (length [''/d/b'', ''/d/a''] - 1) * length ''xx''),
        unlink_all deleted example_fs)"
    by blast
  then have "fst (delete_duplicates [(''#xx'', [''/d/b'', ''/d/a''])] True example_fs) = Inr (1, 2)"
    by simp
  with all show ?thesis by simp
qed

text \<open>
  Claim C5, as the code has it. When the size query or the removal of a file fails during
  bulk resolution, the failure is caught: the loop goes on with the remaining files from the
  same state and the same counters, so the file adds nothing to the deleted count or to the
  reclaimed bytes and stays in place, and the group does not stop the groups after it. The
  outcome is the pair of the deleted count and the reclaimed bytes; over distinct files it
  counts exactly the files whose removal succeeded.
\<close>

theorem C5_failed_removal_is_skipped:
  assumes "getsize fs p = Inl e \<or> fst (os_remove p fs) = Inl e"
  shows "delete_files (p # fl) (deleted_count, reclaimed_space) fs =
           delete_files fl (deleted_count, reclaimed_space) fs \<and>
         (distinct file_list \<longrightarrow>
            (\<exists>removed. removed = filter (removable fs) file_list \<and> p \<notin> set removed \<and>
               delete_files file_list (deleted_count, reclaimed_space) fs =
                 ((deleted_count + length removed,
                   reclaimed_space + sum_list (map (size_of fs) removed)),
                  unlink_all removed fs) \<and>
               files (unlink_all removed fs) p = files fs p)) \<and>
         ((\<forall>q \<in> set grp. getmtime fs q = Inr (t q)) \<longrightarrow>
            (\<exists>st1 fs1. delete_groups keep_oldest (grp # rest) st fs =
                         delete_groups keep_oldest rest st1 fs1))"
proof -
  from assms have nr: "\<not> removable fs p" using not_removable_iff by blast
  have a: "delete_files (p # fl) (deleted_count, reclaimed_space) fs =
           delete_files fl (deleted_count, reclaimed_space) fs"
    by (rule delete_step_fail[OF nr])
  have b: "distinct file_list \<longrightarrow>
            (\<exists>removed. removed = filter (removable fs) file_list \<and> p \<notin> set removed \<and>
               delete_files file_list (deleted_count, reclaimed_space) fs =
                 ((deleted_count + length removed,
                   reclaimed_space + sum_list (map (size_of fs) removed)),
                  unlink_all removed fs) \<and>
               files (unlink_all removed fs) p = files fs p)"
    using nr by (simp add: delete_files_eq files_unlink_all)
  have c: "(\<forall>q \<in> set grp. getmtime fs q = Inr (t q)) \<longrightarrow>
            (\<exists>st1 fs1. delete_groups keep_oldest (grp # rest) st fs =
                         delete_groups keep_oldest rest st1 fs1)"
  proof
    assume m: "\<forall>q \<in> set grp. getmtime fs q = Inr (t q)"
    obtain st1 fs1 where
      "delete_files (files_to_delete keep_oldest (sort_key t grp)) st fs = (st1, fs1)"
      by (cases "delete_files (files_to_delete keep_oldest (sort_key t grp)) st fs")
    then have "delete_groups keep_oldest (grp # rest) st fs =
                 delete_groups keep_oldest rest st1 fs1"
      by (simp only: delete_groups_step[OF m] prod.case)
    then show "\<exists>st1 fs1. delete_groups keep_oldest (grp # rest) st fs =
                         delete_groups keep_oldest rest st1 fs1"
      by blast
  qed
  from a b c show ?thesis by blast
qed

text \<open>The theorem on the example directory, where \<^verbatim>\<open>locked\<close> cannot be removed.\<close>

theorem C5_failed_removal_is_skipped_witness:
  "fst (os_remove ''/d/locked'' example_fs) = Inl OSError \<and>
   delete_files [''/d/locked'', ''/d/b''] (0, 0) example_fs =
     ((1, 2), unlink_all [''/d/b''] example_fs) \<and>
   files (unlink_all [''/d/b''] example_fs) ''/d/locked'' = files example_fs ''/d/locked''"
proof -
  have f: "getsize example_fs ''/d/locked'' = Inl OSError \<or>
           fst (os_remove ''/d/locked'' example_fs) = Inl OSError"
    by (simp add: example_remove_locked)
  have d: "distinct [''/d/locked'', ''/d/b'']" by simp
  note T = C5_failed_removal_is_skipped[OF f, of "[''/d/b'']" 0 0 "[''/d/locked'', ''/d/b'']"
      "[]" example_mtime True "[]" "(0, 0)"]
  from conjunct1[OF conjunct2[OF T]] d
  have "delete_files [''/d/locked'', ''/d/b''] (0, 0) example_fs =
          ((1, 2), unlink_all [''/d/b''] example_fs) \<and>
        files (unlink_all [''/d/b''] example_fs) ''/d/locked'' = files example_fs ''/d/locked''"
    by (simp add: example_removable example_size_of del: delete_files.simps)
  with example_remove_locked show ?thesis by simp
qed

text \<open>The claim as the specification states it fails: the outcome holds no count of failures.
  A bulk resolution in which the removal of \<^verbatim>\<open>locked\<close> fails returns the same outcome as one
  in which no removal fails.\<close>

theorem C5_counterexample:
  "fst (os_remove ''/d/locked'' example_fs) = Inl OSError \<and>
   fst (delete_duplicates [(''#xx'', [''/d/a'', ''/d/b'', ''/d/locked''])] True example_fs) =
     Inr (1, 2) \<and>
   fst (delete_duplicates [(''#xx'', [''/d/a'', ''/d/b''])] True example_fs) = Inr (1, 2)"
  by (simp add: example_remove_locked example_bulk_with_failure example_bulk_without_failure)

section \<open>Further claims about the guard, grouping and resolution\<close>

text \<open>
  Claim C1, as the code has it. \<^verbatim>\<open>is_protected_directory\<close> returns true when the normalized path
  (absolute, lower-cased, backslashes turned into slashes) has at most three characters and
  contains a colon, which is a drive root such as \<^verbatim>\<open>C:\\<close>; it returns true when the normalized
  path contains one of the reserved names with a slash on both sides, which is a path strictly
  inside a reserved directory such as \<^verbatim>\<open>/etc/passwd\<close>; and it returns false for every
  directory that is not such a drive root and none of whose path components is a reserved
  name, such as \<^verbatim>\<open>/home/alice/photos\<close> under any working directory.
\<close>

theorem C1_path_guard:
  "(length (path_lower_of abspath p) \<le> 3 \<and> CHR '':'' \<in> set (path_lower_of abspath p)
      \<longrightarrow> is_protected_directory abspath p) \<and>
   (q \<in> set protected_paths \<and> path_lower_of abspath p' = pre @ q @ rest
      \<longrightarrow> is_protected_directory abspath p') \<and>
   (\<not> (length (path_lower_of abspath p'') \<le> 3 \<and> CHR '':'' \<in> set (path_lower_of abspath p'')) \<and>
    (\<forall>name \<in> set reserved_names.
       name \<notin> set (split_sep CHR ''/'' (path_lower_of abspath p'')))
      \<longrightarrow> \<not> is_protected_directory abspath p'') \<and>
   \<not> is_protected_directory (posix_abspath cwd) ''/home/alice/photos''"
proof (intro conjI impI)
  assume "length (path_lower_of abspath p) \<le> 3 \<and> CHR '':'' \<in> set (path_lower_of abspath p)"
  then show "is_protected_directory abspath p" by (simp add: is_protected_directory_iff)
next
  assume a: "q \<in> set protected_paths \<and> path_lower_of abspath p' = pre @ q @ rest"
  then have "sublist q (path_lower_of abspath p')"
    unfolding sublist_def by blast
  with a show "is_protected_directory abspath p'"
    unfolding is_protected_directory_iff by blast
next
  assume a: "\<not> (length (path_lower_of abspath p'') \<le> 3 \<and> CHR '':'' \<in> set (path_lower_of abspath p'')) \<and>
    (\<forall>name \<in> set reserved_names.
       name \<notin> set (split_sep CHR ''/'' (path_lower_of abspath p'')))"
  show "\<not> is_protected_directory abspath p''"
    by (rule no_reserved_component_unprotected[OF conjunct1[OF a] conjunct2[OF a]])
next
  show "\<not> is_protected_directory (posix_abspath cwd) ''/home/alice/photos''" by (rule photos)
qed

text \<open>The theorem at the drive root \<^verbatim>\<open>C:\\<close> (which the Windows \<^verbatim>\<open>abspath\<close> returns as it is), at
  \<^verbatim>\<open>/etc/passwd\<close> and at the relative path \<^verbatim>\<open>Projects/demo\<close> under \<^verbatim>\<open>/home/alice\<close>.\<close>

theorem C1_path_guard_witness:
  "is_protected_directory (\<lambda>p. p) [CHR ''C'', CHR '':'', CHR 0x5C] \<and>
   is_protected_directory (posix_abspath ''/home/alice'') ''/etc/passwd'' \<and>
   \<not> is_protected_directory (posix_abspath ''/home/alice'') ''Projects/demo''"
  using C1_path_guard[of "\<lambda>p. p" "[CHR ''C'', CHR '':'', CHR 0x5C]" "''/etc/''"
      "''/etc/passwd''" "[]" "''passwd''" "''/''" "''/''"]
    C1_path_guard[of "posix_abspath ''/home/alice''" "''/''" "''/etc/''"
      "''/etc/passwd''" "[]" "''passwd''" "''Projects/demo''" "''/''"]
  by (simp add: drive_root_lower etc_passwd_lower protected_paths_def projects_lower
      projects_components reserved_names_def)

text \<open>The claim as the specification states it fails: the POSIX root \<^verbatim>\<open>/\<close> has no colon and
  contains no reserved name, and \<^verbatim>\<open>/etc\<close> itself has no slash after the name.\<close>

theorem C1_counterexample:
  "\<not> is_protected_directory (posix_abspath ''/home/alice'') ''/'' \<and>
   \<not> is_protected_directory (posix_abspath ''/home/alice'') ''/etc''"
  unfolding is_protected_directory_iff root_lower etc_lower
  by (simp add: protected_paths_def sublist_Cons_right)

text \<open>
  Claim C3. For a non-empty group whose members all have a modification time, the sort by
  modification time succeeds and is stable (members with equal times keep their input
  order). With \<^verbatim>\<open>keep_oldest\<close> the member at index 0 is retained: it has the minimum time, it
  is the first member of the input with that time, and all other members are marked for
  removal. Without it the last member is retained: it has the maximum time, it is the last
  member of the input with that time, and all others are marked. \<^verbatim>\<open>delete_duplicates\<close> runs
  its deletion loop on exactly the marked members. \<^verbatim>\<open>delete_interactive\<close>, when every
  modification time of the group has a date, announces the retained member last before the
  prompt and, on the answer \<^verbatim>\<open>y\<close>, makes the same deletions as the bulk loop on the marked
  members, reporting one line for each; on another answer it leaves the group as it is; then
  it goes on with the remaining groups. When a modification time has no date it raises
  before the prompt and deletes nothing.
\<close>

theorem C3_resolution_policy:
  assumes "file_list \<noteq> []" and "\<forall>p \<in> set file_list. getmtime fs p = Inr (t p)"
  shows "\<exists>sorted_list.
           sort_by_mtime file_list fs = (Inr sorted_list, fs) \<and>
           sorted (map t sorted_list) \<and>
           (\<forall>k. filter (\<lambda>p. t p = k) sorted_list = filter (\<lambda>p. t p = k) file_list) \<and>
           mset (hd sorted_list # files_to_delete True sorted_list) = mset file_list \<and>
           (\<forall>p \<in> set file_list. t (hd sorted_list) \<le> t p) \<and>
           hd sorted_list = hd (filter (\<lambda>p. t p = t (hd sorted_list)) file_list) \<and>
           mset (files_to_delete False sorted_list @ [last sorted_list]) = mset file_list \<and>
           (\<forall>p \<in> set file_list. t p \<le> t (last sorted_list)) \<and>
           last sorted_list = last (filter (\<lambda>p. t p = t (last sorted_list)) file_list) \<and>
           delete_groups keep_oldest (file_list # rest) st fs =
             (case delete_files (files_to_delete keep_oldest sorted_list) st fs of
                (st1, fs1) \<Rightarrow> delete_groups keep_oldest rest st1 fs1) \<and>
           ((\<forall>p \<in> set file_list. fromtimestamp (t p) = Inr (d p)) \<longrightarrow>
              (\<exists>out1 report.
                 last out1 = Keeping (if keep_oldest then hd sorted_list else last sorted_list) \<and>
                 length report = length (files_to_delete keep_oldest sorted_list) \<and>
                 delete_interactive fromtimestamp ((h, file_list) # more_groups) keep_oldest
                     (answer # pending, out) fs =
                   (if lower (strip answer) = ''y'' then
                      interactive_groups fromtimestamp keep_oldest (map snd more_groups)
                        (fst (delete_files (files_to_delete keep_oldest sorted_list) (0, 0) fs))
                        (pending, out1 @ report)
                        (snd (delete_files (files_to_delete keep_oldest sorted_list) (0, 0) fs))
                    else
                      interactive_groups fromtimestamp keep_oldest (map snd more_groups)
                        (0, 0) (pending, out1) fs))) \<and>
           ((\<exists>p \<in> set file_list. \<exists>e. fromtimestamp (t p) = Inl e) \<longrightarrow>
              (\<exists>e. delete_interactive fromtimestamp ((h, file_list) # more_groups) keep_oldest
                      tm fs = (Inl e, fs)))"
proof -
  let ?s = "sort_key t file_list"
  let ?D = "files_to_delete keep_oldest ?s"
  from assms(1) have ne: "?s \<noteq> []" by (metis length_sort length_0_conv)
  have srt: "sorted (map t ?s)" by (rule sorted_sort_key)
  have stable: "\<forall>k. filter (\<lambda>p. t p = k) ?s = filter (\<lambda>p. t p = k) file_list"
    by (simp add: sort_key_stable)
  have "hd ?s # files_to_delete True ?s = ?s"
    using ne by (cases ?s) (simp_all add: files_to_delete_def)
  then have m1: "mset (hd ?s # files_to_delete True ?s) = mset file_list"
    by (simp only: mset_sort)
  have "files_to_delete False ?s @ [last ?s] = ?s"
    using ne by (simp add: files_to_delete_def)
  then have m2: "mset (files_to_delete False ?s @ [last ?s]) = mset file_list"
    by (simp only: mset_sort)
  have least: "\<forall>p \<in> set file_list. t (hd ?s) \<le> t p"
    using sorted_hd_least[OF srt ne] by simp
  have greatest: "\<forall>p \<in> set file_list. t p \<le> t (last ?s)"
    using sorted_last_greatest[OF srt ne] by simp
  note first = hd_sort_key_stable[OF assms(1), of t]
  note final = last_sort_key_stable[OF assms(1), of t]
  note bulk = delete_groups_step[OF assms(2), of keep_oldest rest st]
  have inter: "(\<forall>p \<in> set file_list. fromtimestamp (t p) = Inr (d p)) \<longrightarrow>
              (\<exists>out1 report.
                 last out1 = Keeping (if keep_oldest then hd ?s else last ?s) \<and>
                 length report = length ?D \<and>
                 delete_interactive fromtimestamp ((h, file_list) # more_groups) keep_oldest
                     (answer # pending, out) fs =
                   (if lower (strip answer) = ''y'' then
                      interactive_groups fromtimestamp keep_oldest (map snd more_groups)
                        (fst (delete_files ?D (0, 0) fs)) (pending, out1 @ report)
                        (snd (delete_files ?D (0, 0) fs))
                    else
                      interactive_groups fromtimestamp keep_oldest (map snd more_groups)
                        (0, 0) (pending, out1) fs))"
  proof
    assume dt: "\<forall>p \<in> set file_list. fromtimestamp (t p) = Inr (d p)"
    from interactive_group_eq[OF assms dt, of keep_oldest answer pending out]
    obtain out1 report where
      k: "last out1 = Keeping (if keep_oldest then hd ?s else last ?s)"
      and r: "length report = length ?D"
      and g: "interactive_group fromtimestamp keep_oldest file_list (0, 0) (answer # pending, out) fs =
             (if lower (strip answer) = ''y'' then
                (Inr (fst (delete_files ?D (0, 0) fs), (pending, out1 @ report)),
                 snd (delete_files ?D (0, 0) fs))
              else (Inr ((0, 0), (pending, out1)), fs))"
      by blast
    have "delete_interactive fromtimestamp ((h, file_list) # more_groups) keep_oldest
                     (answer # pending, out) fs =
                   (if lower (strip answer) = ''y'' then
                      interactive_groups fromtimestamp keep_oldest (map snd more_groups)
                        (fst (delete_files ?D (0, 0) fs)) (pending, out1 @ report)
                        (snd (delete_files ?D (0, 0) fs))
                    else
                      interactive_groups fromtimestamp keep_oldest (map snd more_groups)
                        (0, 0) (pending, out1) fs)"
      unfolding delete_interactive_Cons g by simp
    with k r show "\<exists>out1 report.
                 last out1 = Keeping (if keep_oldest then hd ?s else last ?s) \<and>
                 length report = length ?D \<and>
                 delete_interactive fromtimestamp ((h, file_list) # more_groups) keep_oldest
                     (answer # pending, out) fs =
                   (if lower (strip answer) = ''y'' then
                      interactive_groups fromtimestamp keep_oldest (map snd more_groups)
                        (fst (delete_files ?D (0, 0) fs)) (pending, out1 @ report)
                        (snd (delete_files ?D (0, 0) fs))
                    else
                      interactive_groups fromtimestamp keep_oldest (map snd more_groups)
                        (0, 0) (pending, out1) fs)"
      by blast
  qed
  have baddate: "(\<exists>p \<in> set file_list. \<exists>e. fromtimestamp (t p) = Inl e) \<longrightarrow>
              (\<exists>e. delete_interactive fromtimestamp ((h, file_list) # more_groups) keep_oldest
                      tm fs = (Inl e, fs))"
  proof
    assume b: "\<exists>p \<in> set file_list. \<exists>e. fromtimestamp (t p) = Inl e"
    from interactive_group_bad_date[OF assms b, of keep_oldest "(0, 0)" tm]
    obtain e where "interactive_group fromtimestamp keep_oldest file_list (0, 0) tm fs = (Inl e, fs)"
      by blast
    then have "delete_interactive fromtimestamp ((h, file_list) # more_groups) keep_oldest tm fs =
                 (Inl e, fs)"
      unfolding delete_interactive_Cons by simp
    then show "\<exists>e. delete_interactive fromtimestamp ((h, file_list) # more_groups) keep_oldest
                      tm fs = (Inl e, fs)" by blast
  qed
  show ?thesis
    by (rule exI[of _ ?s], intro conjI)
       (rule sort_by_mtime_ok[OF assms(2)], rule srt, rule stable, rule m1, rule least,
        rule first, rule m2, rule greatest, rule final, rule bulk, rule inter, rule baddate)
qed

text \<open>The theorem on the files \<^verbatim>\<open>b\<close> and \<^verbatim>\<open>a\<close> of the example directory.\<close>

theorem C3_resolution_policy_witness:
  "getmtime example_fs ''/d/b'' = Inr 2 \<and> getmtime example_fs ''/d/a'' = Inr 1 \<and>
   sort_by_mtime [''/d/b'', ''/d/a''] example_fs = (Inr [''/d/a'', ''/d/b''], example_fs) \<and>
   files_to_delete True [''/d/a'', ''/d/b''] = [''/d/b''] \<and>
   files_to_delete False [''/d/a'', ''/d/b''] = [''/d/a''] \<and>
   (\<exists>tm. delete_interactive example_fromtimestamp [(''#xx'', [''/d/b'', ''/d/a''])] True
           ([''y''], []) example_fs =
         (Inr ((1, 2), tm), unlink_all [''/d/b''] example_fs))"
proof -
  have m: "\<forall>p \<in> set [''/d/b'', ''/d/a'']. getmtime example_fs p = Inr (example_mtime p)"
    by (simp add: example_getmtime)
  have ne: "[''/d/b'', ''/d/a''] \<noteq> []" by simp
  have dt: "\<forall>p \<in> set [''/d/b'', ''/d/a''].
              example_fromtimestamp (example_mtime p) = Inr ((\<lambda>p. ''date'') p)"
    by (simp add: example_dates)
  from C3_resolution_policy[OF ne m]
  obtain sorted_list where
    s: "sort_by_mtime [''/d/b'', ''/d/a''] example_fs = (Inr sorted_list, example_fs)"
    by blast
  have sl: "sorted_list = [''/d/a'', ''/d/b'']"
    using s by (simp add: sort_by_mtime_ok[OF m] example_mtime_def)
  from interactive_group_eq[OF ne m dt, of True "''y''" "[]" "[]"]
  obtain out1 report where
    g: "interactive_group example_fromtimestamp True [''/d/b'', ''/d/a''] (0, 0) ([''y''], [])
          example_fs =
        (if lower (strip ''y'') = ''y'' then
           (Inr (fst (delete_files (files_to_delete True
                        (sort_key example_mtime [''/d/b'', ''/d/a''])) (0, 0) example_fs),
                 ([], out1 @ report)),
            snd (delete_files (files_to_delete True
                   (sort_key example_mtime [''/d/b'', ''/d/a''])) (0, 0) example_fs))
         else (Inr ((0, 0), ([], out1)), example_fs))"
    by blast
  have del: "delete_files (files_to_delete True (sort_key example_mtime [''/d/b'', ''/d/a'']))
               (0, 0) example_fs = ((1, 2), unlink_all [''/d/b''] example_fs)"
    by (simp only: example_sorted files_to_delete_def if_True drop_Suc_Cons drop_0 One_nat_def
        example_delete_b)
  have "delete_interactive example_fromtimestamp [(''#xx'', [''/d/b'', ''/d/a''])] True
           ([''y''], []) example_fs =
         (Inr ((1, 2), ([], out1 @ report)), unlink_all [''/d/b''] example_fs)"
    unfolding delete_interactive_Cons g del by (simp add: answer_y)
  then have "\<exists>tm. delete_interactive example_fromtimestamp [(''#xx'', [''/d/b'', ''/d/a''])] True
           ([''y''], []) example_fs =
         (Inr ((1, 2), tm), unlink_all [''/d/b''] example_fs)"
    by blast
  with s sl m show ?thesis by (simp add: files_to_delete_def example_mtime_def)
qed

text \<open>
  Claim C7. When a file cannot be opened, or a read of it fails before the end of the file,
  \<^verbatim>\<open>calculate_file_hash\<close> returns \<^verbatim>\<open>None\<close>. In the hashing loop of a bucket such a file only
  advances the counter: the digest groups of the bucket are those of the bucket without the
  file, each group holds exactly the members with its digest, and every member with a
  (non-empty) digest is in its group. The run does not abort, and the buckets are not
  discarded: \<^verbatim>\<open>find_duplicates\<close> returns; each group it returns has at least two members, does
  not contain the failing file, and holds exactly the visited files of one size with the
  group's digest; and whenever two or more visited files of one size have the same digest,
  which no visited file of another size has, they are returned as a group.
\<close>

theorem C7_hash_failure_excludes_one_file:
  assumes "files fs bad = None \<or>
           (\<exists>f. files fs bad = Some f \<and>
                (\<not> open_ok f \<or> (\<exists>k. read_limit f = Some k \<and> k \<le> length (content f))))"
  shows "calculate_file_hash md5 bad 65536 fs = (None, fs) \<and>
         hash_files md5 (xs @ bad # ys) (hashes, n) fs =
           (case hash_files md5 (xs @ ys) (hashes, n) fs of
              ((hashes', n'), fs') \<Rightarrow> ((hashes', n' + 1), fs')) \<and>
         (\<forall>h g. (h, g) \<in> set (fst (fst (hash_files md5 (xs @ bad # ys) ([], n) fs))) \<longrightarrow>
                g = filter (\<lambda>p. file_hash md5 fs p = Some h) (xs @ ys)) \<and>
         (\<forall>p h. p \<in> set (xs @ ys) \<and> file_hash md5 fs p = Some h \<and> h \<noteq> [] \<longrightarrow>
                (\<exists>g. (h, g) \<in> set (fst (fst (hash_files md5 (xs @ bad # ys) ([], n) fs))) \<and>
                     p \<in> set g)) \<and>
         (\<not> listing_fails fs directory include_subfolders \<longrightarrow>
            (\<exists>duplicates.
               find_duplicates md5 directory include_subfolders fs = (Inr duplicates, fs) \<and>
               (\<forall>h g. (h, g) \<in> set duplicates \<longrightarrow>
                  bad \<notin> set g \<and> 2 \<le> length g \<and>
                  (\<exists>sz. g = filter (\<lambda>p. getsize fs p = Inr sz \<and> file_hash md5 fs p = Some h)
                                (visited fs directory include_subfolders))) \<and>
               (\<forall>h sz. h \<noteq> [] \<and>
                  2 \<le> length (filter (\<lambda>p. getsize fs p = Inr sz \<and> file_hash md5 fs p = Some h)
                                 (visited fs directory include_subfolders)) \<and>
                  (\<forall>q \<in> set (visited fs directory include_subfolders).
                     file_hash md5 fs q = Some h \<longrightarrow> getsize fs q = Inr sz) \<longrightarrow>
                  (h, filter (\<lambda>p. getsize fs p = Inr sz \<and> file_hash md5 fs p = Some h)
                        (visited fs directory include_subfolders)) \<in> set duplicates)))"
proof -
  let ?vs = "visited fs directory include_subfolders"
  let ?D = "collect_groups md5 fs (size_buckets fs ?vs) []"
  have none: "calculate_file_hash md5 bad 65536 fs = (None, fs)"
    using assms by (intro calculate_file_hash_unreadable) simp_all
  then have fh: "file_hash md5 fs bad = None" by (simp add: file_hash_def)
  have skip: "\<And>hashes n. hash_files md5 (xs @ bad # ys) (hashes, n) fs =
           (case hash_files md5 (xs @ ys) (hashes, n) fs of
              ((hashes', n'), fs') \<Rightarrow> ((hashes', n' + 1), fs'))"
    by (rule hash_files_skip[OF fh])
  have same: "fst (fst (hash_files md5 (xs @ bad # ys) ([], n) fs)) =
              fst (fst (hash_files md5 (xs @ ys) ([], n) fs))"
    by (simp add: skip split: prod.splits)
  have a: "\<forall>h g. (h, g) \<in> set (fst (fst (hash_files md5 (xs @ bad # ys) ([], n) fs))) \<longrightarrow>
                g = filter (\<lambda>p. file_hash md5 fs p = Some h) (xs @ ys)"
    unfolding same using hash_files_groups by blast
  have b: "\<forall>p h. p \<in> set (xs @ ys) \<and> file_hash md5 fs p = Some h \<and> h \<noteq> [] \<longrightarrow>
                (\<exists>g. (h, g) \<in> set (fst (fst (hash_files md5 (xs @ bad # ys) ([], n) fs))) \<and>
                     p \<in> set g)"
    unfolding same using hash_files_complete by blast
  have c: "\<not> listing_fails fs directory include_subfolders \<longrightarrow>
            (\<exists>duplicates.
               find_duplicates md5 directory include_subfolders fs = (Inr duplicates, fs) \<and>
               (\<forall>h g. (h, g) \<in> set duplicates \<longrightarrow>
                  bad \<notin> set g \<and> 2 \<le> length g \<and>
                  (\<exists>sz. g = filter (\<lambda>p. getsize fs p = Inr sz \<and> file_hash md5 fs p = Some h) ?vs)) \<and>
               (\<forall>h sz. h \<noteq> [] \<and>
                  2 \<le> length (filter (\<lambda>p. getsize fs p = Inr sz \<and> file_hash md5 fs p = Some h) ?vs) \<and>
                  (\<forall>q \<in> set ?vs. file_hash md5 fs q = Some h \<longrightarrow> getsize fs q = Inr sz) \<longrightarrow>
                  (h, filter (\<lambda>p. getsize fs p = Inr sz \<and> file_hash md5 fs p = Some h) ?vs)
                    \<in> set duplicates))"
  proof
    assume l: "\<not> listing_fails fs directory include_subfolders"
    have fd: "find_duplicates md5 directory include_subfolders fs = (Inr ?D, fs)"
      using l by (simp add: find_duplicates_eq)
    have sound: "\<forall>h g. (h, g) \<in> set ?D \<longrightarrow>
                  bad \<notin> set g \<and> 2 \<le> length g \<and>
                  (\<exists>sz. g = filter (\<lambda>p. getsize fs p = Inr sz \<and> file_hash md5 fs p = Some h) ?vs)"
    proof (intro allI impI)
      fix h g assume m: "(h, g) \<in> set ?D"
      from find_duplicates_groups[OF m] obtain sz where
        len: "2 \<le> length g"
        and g: "g = filter (\<lambda>p. getsize fs p = Inr sz \<and> file_hash md5 fs p = Some h) ?vs"
        by blast
      from g fh have "bad \<notin> set g" by simp
      with len g show "bad \<notin> set g \<and> 2 \<le> length g \<and>
          (\<exists>sz. g = filter (\<lambda>p. getsize fs p = Inr sz \<and> file_hash md5 fs p = Some h) ?vs)"
        by blast
    qed
    have complete: "\<forall>h sz. h \<noteq> [] \<and>
                  2 \<le> length (filter (\<lambda>p. getsize fs p = Inr sz \<and> file_hash md5 fs p = Some h) ?vs) \<and>
                  (\<forall>q \<in> set ?vs. file_hash md5 fs q = Some h \<longrightarrow> getsize fs q = Inr sz) \<longrightarrow>
                  (h, filter (\<lambda>p. getsize fs p = Inr sz \<and> file_hash md5 fs p = Some h) ?vs)
                    \<in> set ?D"
      using digest_group_found by blast
    show "\<exists>duplicates.
               find_duplicates md5 directory include_subfolders fs = (Inr duplicates, fs) \<and>
               (\<forall>h g. (h, g) \<in> set duplicates \<longrightarrow>
                  bad \<notin> set g \<and> 2 \<le> length g \<and>
                  (\<exists>sz. g = filter (\<lambda>p. getsize fs p = Inr sz \<and> file_hash md5 fs p = Some h) ?vs)) \<and>
               (\<forall>h sz. h \<noteq> [] \<and>
                  2 \<le> length (filter (\<lambda>p. getsize fs p = Inr sz \<and> file_hash md5 fs p = Some h) ?vs) \<and>
                  (\<forall>q \<in> set ?vs. file_hash md5 fs q = Some h \<longrightarrow> getsize fs q = Inr sz) \<longrightarrow>
                  (h, filter (\<lambda>p. getsize fs p = Inr sz \<and> file_hash md5 fs p = Some h) ?vs)
                    \<in> set duplicates)"
      by (rule exI[of _ ?D], intro conjI) (rule fd, rule sound, rule complete)
  qed
  show ?thesis
    by (intro conjI) (rule none, rule skip, rule a, rule b, rule c)
qed

text \<open>The theorem on a bucket of four files of which \<^verbatim>\<open>locked\<close> cannot be opened, and on
  the scan of the example directory, whose only size bucket holds these four files.\<close>

theorem C7_hash_failure_excludes_one_file_witness:
  "(\<exists>f. files example_fs ''/d/locked'' = Some f \<and> \<not> open_ok f) \<and>
   calculate_file_hash example_md5 ''/d/locked'' 65536 example_fs = (None, example_fs) \<and>
   hash_files example_md5 [''/d/a'', ''/d/locked'', ''/d/b'', ''/d/c''] ([], 0) example_fs =
     (([(''#xx'', [''/d/a'', ''/d/b'']), (''#yy'', [''/d/c''])], 4), example_fs) \<and>
   find_duplicates example_md5 ''/d'' True example_fs =
     (Inr [(''#xx'', [''/d/a'', ''/d/b''])], example_fs)"
proof -
  have l: "files example_fs ''/d/locked'' = None \<or>
        (\<exists>f. files example_fs ''/d/locked'' = Some f \<and>
        (\<not> open_ok f \<or> (\<exists>k. read_limit f = Some k \<and> k \<le> length (content f))))"
    using example_locked by blast
  have r: "hash_files example_md5 [''/d/a'', ''/d/b'', ''/d/c''] ([], 0) example_fs =
     (([(''#xx'', [''/d/a'', ''/d/b'']), (''#yy'', [''/d/c''])], 3), example_fs)"
    by (simp add: hash_files_eq example_digest_key dict_append_def)
  note T = C7_hash_failure_excludes_one_file[OF l, of example_md5 "[''/d/a'']"
      "[''/d/b'', ''/d/c'']" "[]" 0 "''/d''" True]
  from conjunct1[OF T] conjunct1[OF conjunct2[OF T]]
  have "calculate_file_hash example_md5 ''/d/locked'' 65536 example_fs = (None, example_fs) \<and>
    hash_files example_md5 [''/d/a'', ''/d/locked'', ''/d/b'', ''/d/c''] ([], 0) example_fs =
     (([(''#xx'', [''/d/a'', ''/d/b'']), (''#yy'', [''/d/c''])], 4), example_fs)"
    by (simp add: r del: hash_files.simps)
  moreover have "\<exists>f. files example_fs ''/d/locked'' = Some f \<and> \<not> open_ok f"
    by (simp add: example_fs_def plain_file_def)
  ultimately show ?thesis using example_find_duplicates by blast
qed

end
